theory Spec2Isabelle
  imports Main
begin

section \<open>JavaScript values\<close>

text \<open>
  The list API stores untyped tuples (\<^verbatim>\<open>buffer: any[]\<close>) and \<^verbatim>\<open>custom(data: any)\<close> appends
  any value, so buffer entries and payloads are values of one universe. Objects keep their
  properties in insertion order; arrays carry their indexed elements; numbers are integers
  (nothing here computes with them). Payloads are held by value: two buffered entries
  never share one payload object.
\<close>

datatype jsval =
    JUndefined
  | JNull
  | JBool bool
  | JNum int
  | JStr string
  | JArr "jsval list"
  | JObj "(string \<times> jsval) list"

datatype thrown = TypeError

text \<open>JavaScript truthiness, as tested by \<^verbatim>\<open>if (found)\<close> and \<^verbatim>\<open>csrf && ...\<close>.\<close>

fun truthy :: "jsval \<Rightarrow> bool" where
  "truthy JUndefined = False"
| "truthy JNull = False"
| "truthy (JBool b) = b"
| "truthy (JNum n) = (n \<noteq> 0)"
| "truthy (JStr s) = (s \<noteq> [])"
| "truthy (JArr xs) = True"
| "truthy (JObj fs) = True"

text \<open>Decimal property keys: the key of array index \<open>i\<close>.\<close>

definition digit :: "nat \<Rightarrow> char" where
  "digit d = ''0123456789'' ! d"

fun dec :: "nat \<Rightarrow> string" where
  "dec n = (if n < 10 then [digit n] else dec (n div 10) @ [digit (n mod 10)])"

declare dec.simps [simp del]

text \<open>Property lookup \<^verbatim>\<open>o[k]\<close> on a plain object: \<^verbatim>\<open>undefined\<close> when the key is absent.\<close>

definition get_prop :: "(string \<times> jsval) list \<Rightarrow> string \<Rightarrow> jsval" where
  "get_prop fs k = (case map_of fs k of None \<Rightarrow> JUndefined | Some v \<Rightarrow> v)"

text \<open>
  Indexed read \<^verbatim>\<open>x[i]\<close>: a TypeError on \<^verbatim>\<open>undefined\<close> and \<^verbatim>\<open>null\<close>, \<^verbatim>\<open>undefined\<close> out of range,
  one character of a string.
\<close>

fun get_index :: "jsval \<Rightarrow> nat \<Rightarrow> thrown + jsval" where
  "get_index JUndefined i = Inl TypeError"
| "get_index JNull i = Inl TypeError"
| "get_index (JBool b) i = Inr JUndefined"
| "get_index (JNum n) i = Inr JUndefined"
| "get_index (JStr s) i = Inr (if i < length s then JStr [s ! i] else JUndefined)"
| "get_index (JArr xs) i = Inr (if i < length xs then xs ! i else JUndefined)"
| "get_index (JObj fs) i = Inr (get_prop fs (dec i))"

text \<open>Optional chaining \<^verbatim>\<open>x?.[i]\<close>: \<^verbatim>\<open>undefined\<close> instead of the TypeError.\<close>

definition opt_index :: "jsval \<Rightarrow> nat \<Rightarrow> jsval" where
  "opt_index x i = (case get_index x i of Inl e \<Rightarrow> JUndefined | Inr v \<Rightarrow> v)"

text \<open>Indexed write \<^verbatim>\<open>x[i] = v\<close> on an existing slot of an array or object.\<close>

definition set_prop :: "string \<Rightarrow> jsval \<Rightarrow> (string \<times> jsval) list \<Rightarrow> (string \<times> jsval) list" where
  "set_prop k v fs =
     (if k \<in> fst ` set fs then map (\<lambda>(k', v'). if k' = k then (k', v) else (k', v')) fs
      else fs @ [(k, v)])"

fun set_index :: "jsval \<Rightarrow> nat \<Rightarrow> jsval \<Rightarrow> jsval" where
  "set_index (JArr xs) i v = JArr (xs[i := v])"
| "set_index (JObj fs) i v = JObj (set_prop (dec i) v fs)"
| "set_index x i v = x"

text \<open>The own enumerable properties of a value, in the order \<^verbatim>\<open>Object.assign\<close> reads them.\<close>

fun own_props :: "jsval \<Rightarrow> (string \<times> jsval) list" where
  "own_props (JObj fs) = fs"
| "own_props (JArr xs) = zip (map dec [0..<length xs]) xs"
| "own_props (JStr s) = zip (map dec [0..<length s]) (map (\<lambda>c. JStr [c]) s)"
| "own_props x = []"

definition assign_props :: "(string \<times> jsval) list \<Rightarrow> (string \<times> jsval) list \<Rightarrow> (string \<times> jsval) list" where
  "assign_props tgt src = fold (\<lambda>(k, v) fs. set_prop k v fs) src tgt"

text \<open>
  What the operations take from their environment and the source does not define:
  lodash's \<^verbatim>\<open>_.matches(search)(value)\<close> (a partial deep comparison) and the effect of
  \<^verbatim>\<open>Object.assign\<close> on a target that is an array or a primitive (the value left in the
  entry, or the error raised). Every theorem holds for any choice of the two.
\<close>

record js_runtime =
  matches :: "jsval \<Rightarrow> jsval \<Rightarrow> bool"
  assign_exotic :: "jsval \<Rightarrow> jsval \<Rightarrow> thrown + jsval"

text \<open>
  \<^verbatim>\<open>Object.assign(target, change)\<close>, giving the target after the call: a TypeError on
  \<^verbatim>\<open>undefined\<close> and \<^verbatim>\<open>null\<close>, field-wise assignment on a plain object.
\<close>

fun Object_assign :: "js_runtime \<Rightarrow> jsval \<Rightarrow> jsval \<Rightarrow> thrown + jsval" where
  "Object_assign rt JUndefined change = Inl TypeError"
| "Object_assign rt JNull change = Inl TypeError"
| "Object_assign rt (JObj fs) change = Inr (JObj (assign_props fs (own_props change)))"
| "Object_assign rt target change = assign_exotic rt target change"

text \<open>lodash's \<^verbatim>\<open>_.isEmpty\<close>: no own enumerable property, or a collection of length 0.\<close>

fun isEmpty :: "jsval \<Rightarrow> bool" where
  "isEmpty (JStr s) = (s = [])"
| "isEmpty (JArr xs) = (xs = [])"
| "isEmpty (JObj fs) = (fs = [])"
| "isEmpty x = True"

section \<open>SendListReadable\<close>

text \<open>
  The object's own fields (\<open>buffer\<close>, \<open>lastError\<close>), the closure state of the debounced
  \<open>processBuffer\<close> (lodash's \<^verbatim>\<open>_.debounce\<close> with \<^verbatim>\<open>maxWait = wait = bufferTime\<close>, whose
  \<open>timerId\<close> and \<open>lastArgs\<close> are only tested for being set), the state of the underlying
  object-mode \<^verbatim>\<open>Readable\<close> (the chunks accepted by \<^verbatim>\<open>push\<close>, and its flags), the number
  of timeouts scheduled and not yet run or cleared, and the readings of \<^verbatim>\<open>Date.now()\<close>
  still to come.
\<close>

record SendListReadable =
  buffer :: "jsval list"
  lastError :: jsval
  wait :: int
  timerId :: bool
  lastArgs :: bool
  lastCallTime :: "int option"
  lastInvokeTime :: int
  chunks :: "jsval list list"
  ended :: bool
  destroyed :: bool
  errored :: bool
  timeouts :: nat
  clock :: "nat \<Rightarrow> int"
  ticks :: nat

subsection \<open>Readable\<close>

text \<open>
  \<^verbatim>\<open>Readable.push(chunk)\<close> in object mode: after the end of the stream the chunk is refused
  and the stream is destroyed with an error; a destroyed or errored stream drops it;
  otherwise it is queued. \<^verbatim>\<open>push(null)\<close> marks the end of the stream.
\<close>

definition errorOrDestroy :: "SendListReadable \<Rightarrow> SendListReadable" where
  "errorOrDestroy st = (if destroyed st then st else st\<lparr>destroyed := True, errored := True\<rparr>)"

definition Readable_push :: "jsval list \<Rightarrow> SendListReadable \<Rightarrow> SendListReadable" where
  "Readable_push chunk st =
     (if ended st then errorOrDestroy st
      else if destroyed st \<or> errored st then st
      else st\<lparr>chunks := chunks st @ [chunk]\<rparr>)"

definition Readable_push_null :: "SendListReadable \<Rightarrow> SendListReadable" where
  "Readable_push_null st = (if ended st then st else st\<lparr>ended := True\<rparr>)"

definition destroy :: "SendListReadable \<Rightarrow> SendListReadable" where
  "destroy st = st\<lparr>destroyed := True\<rparr>"

subsection \<open>The debounced flush\<close>

definition now :: "SendListReadable \<Rightarrow> int \<times> SendListReadable" where
  "now st = (clock st (ticks st), st\<lparr>ticks := Suc (ticks st)\<rparr>)"

text \<open>The debounced function: push the buffer as one chunk, start a new buffer.\<close>

definition processBuffer_func :: "SendListReadable \<Rightarrow> SendListReadable" where
  "processBuffer_func st = (Readable_push (buffer st) st)\<lparr>buffer := []\<rparr>"

definition shouldInvoke :: "int \<Rightarrow> SendListReadable \<Rightarrow> bool" where
  "shouldInvoke t st =
     (case lastCallTime st of
        None \<Rightarrow> True
      | Some c \<Rightarrow> t - c \<ge> wait st \<or> t - c < 0 \<or> t - lastInvokeTime st \<ge> wait st)"

definition invokeFunc :: "int \<Rightarrow> SendListReadable \<Rightarrow> SendListReadable" where
  "invokeFunc t st = processBuffer_func (st\<lparr>lastArgs := False, lastInvokeTime := t\<rparr>)"

text \<open>
  \<^verbatim>\<open>timerId = setTimeout(timerExpired, ...)\<close> and \<^verbatim>\<open>clearTimeout(timerId)\<close>. Only
  \<open>processBuffer\<close> clears a timeout: \<open>trailingEdge\<close> forgets \<open>timerId\<close> and leaves the
  timeout scheduled.
\<close>

definition setTimeout :: "SendListReadable \<Rightarrow> SendListReadable" where
  "setTimeout st = st\<lparr>timerId := True, timeouts := Suc (timeouts st)\<rparr>"

definition clearTimeout :: "SendListReadable \<Rightarrow> SendListReadable" where
  "clearTimeout st = st\<lparr>timeouts := timeouts st - 1\<rparr>"

definition leadingEdge :: "int \<Rightarrow> SendListReadable \<Rightarrow> SendListReadable" where
  "leadingEdge t st = setTimeout (st\<lparr>lastInvokeTime := t\<rparr>)"

definition trailingEdge :: "int \<Rightarrow> SendListReadable \<Rightarrow> SendListReadable" where
  "trailingEdge t st =
     (let st1 = st\<lparr>timerId := False\<rparr>
      in if lastArgs st1 then invokeFunc t st1 else st1\<lparr>lastArgs := False\<rparr>)"

text \<open>
  The callback of a scheduled timeout, which may be one that \<open>timerId\<close> no longer
  names; nothing runs when none is scheduled.
\<close>

definition timerExpired :: "SendListReadable \<Rightarrow> SendListReadable" where
  "timerExpired st =
     (if timeouts st = 0 then st
      else (let (t, st1) = now (st\<lparr>timeouts := timeouts st - 1\<rparr>)
            in if shouldInvoke t st1 then trailingEdge t st1 else setTimeout st1))"

text \<open>\<^verbatim>\<open>processBuffer.flush()\<close>: nothing when \<open>timerId\<close> is not set.\<close>

definition processBuffer_flush :: "SendListReadable \<Rightarrow> SendListReadable" where
  "processBuffer_flush st =
     (if \<not> timerId st then st
      else (let (t, st1) = now st in trailingEdge t st1))"

text \<open>
  \<^verbatim>\<open>processBuffer()\<close>: the call is recorded and a timeout is scheduled; with a timeout
  already scheduled and the wait elapsed, the function is invoked at once.
\<close>

definition processBuffer :: "SendListReadable \<Rightarrow> SendListReadable" where
  "processBuffer st =
     (let (t, st1) = now st;
          isInvoking = shouldInvoke t st1;
          st2 = st1\<lparr>lastArgs := True, lastCallTime := Some t\<rparr>
      in if isInvoking then
           (if \<not> timerId st2 then leadingEdge t st2
            else invokeFunc t (setTimeout (clearTimeout st2)))
         else if \<not> timerId st2 then setTimeout st2
         else st2)"

subsection \<open>Operations\<close>

definition hard_limit :: nat where
  "hard_limit = 10000"

definition u_push :: "jsval \<Rightarrow> SendListReadable \<Rightarrow> SendListReadable" where
  "u_push rec st =
     (let st1 = st\<lparr>buffer := buffer st @ [rec]\<rparr>
      in if length (buffer st1) > hard_limit then processBuffer_flush st1
         else processBuffer st1)"

definition add :: "jsval \<Rightarrow> SendListReadable \<Rightarrow> SendListReadable" where
  "add rec st = u_push (JArr [JStr ''add'', rec]) st"

text \<open>
  \<^verbatim>\<open>_.findIndex(buffer, x => match(x[1]))\<close>: the index of the first entry whose second
  element matches, \<open>None\<close> for -1; reading \<^verbatim>\<open>x[1]\<close> of a \<^verbatim>\<open>null\<close> or \<^verbatim>\<open>undefined\<close> entry
  throws out of the scan.
\<close>

fun findIndex :: "js_runtime \<Rightarrow> jsval \<Rightarrow> jsval list \<Rightarrow> thrown + nat option" where
  "findIndex rt search [] = Inr None"
| "findIndex rt search (x # xs) =
     (case get_index x 1 of
        Inl e \<Rightarrow> Inl e
      | Inr v \<Rightarrow>
          if matches rt search v then Inr (Some 0)
          else (case findIndex rt search xs of
                  Inl e \<Rightarrow> Inl e
                | Inr None \<Rightarrow> Inr None
                | Inr (Some i) \<Rightarrow> Inr (Some (Suc i))))"

definition splice1 :: "nat \<Rightarrow> 'a list \<Rightarrow> 'a list" where
  "splice1 idx xs = take idx xs @ drop (Suc idx) xs"

definition remove :: "js_runtime \<Rightarrow> jsval \<Rightarrow> SendListReadable \<Rightarrow> thrown + SendListReadable" where
  "remove rt search st =
     (case findIndex rt search (buffer st) of
        Inl e \<Rightarrow> Inl e
      | Inr None \<Rightarrow> Inr (u_push (JArr [JStr ''remove'', search]) st)
      | Inr (Some idx) \<Rightarrow>
          (let found = buffer st ! idx;
               op = opt_index found 0
           in if op = JStr ''remove'' then Inr st
              else if truthy found then
                (let st1 = st\<lparr>buffer := splice1 idx (buffer st)\<rparr>
                 in if op = JStr ''add'' then Inr st1
                    else Inr (u_push (JArr [JStr ''remove'', search]) st1))
              else Inr (u_push (JArr [JStr ''remove'', search]) st)))"

definition update :: "js_runtime \<Rightarrow> jsval \<Rightarrow> jsval \<Rightarrow> SendListReadable \<Rightarrow> thrown + SendListReadable" where
  "update rt search change st =
     (if isEmpty change then Inr st
      else (case findIndex rt search (buffer st) of
        Inl e \<Rightarrow> Inl e
      | Inr None \<Rightarrow> Inr (u_push (JArr [JStr ''update'', search, change]) st)
      | Inr (Some idx) \<Rightarrow>
          (let found = buffer st ! idx;
               op = opt_index found 0
           in if op = JStr ''remove'' then Inr st
              else if op = JStr ''add'' \<or> op = JStr ''update'' then
                (let k = (if op = JStr ''add'' then 1 else 2)
                 in case get_index found k of
                      Inl e \<Rightarrow> Inl e
                    | Inr payload \<Rightarrow>
                        (case Object_assign rt payload change of
                           Inl e \<Rightarrow> Inl e
                         | Inr merged \<Rightarrow>
                             Inr (st\<lparr>buffer := (buffer st)[idx := set_index found k merged]\<rparr>)))
              else Inr (u_push (JArr [JStr ''update'', search, change]) st))))"

definition ready :: "SendListReadable \<Rightarrow> SendListReadable" where
  "ready st = u_push (JArr [JStr ''ready'']) st"

definition custom :: "jsval \<Rightarrow> SendListReadable \<Rightarrow> SendListReadable" where
  "custom data st = u_push data st"

definition props :: "jsval \<Rightarrow> SendListReadable \<Rightarrow> SendListReadable" where
  "props p st = u_push (JArr [JStr ''props'', p]) st"

definition close :: "SendListReadable \<Rightarrow> SendListReadable" where
  "close st = Readable_push_null (processBuffer_flush st)"

definition error :: "jsval \<Rightarrow> bool \<Rightarrow> jsval \<Rightarrow> SendListReadable \<Rightarrow> SendListReadable" where
  "error msg cl p st =
     (let st1 = (u_push (JArr [JStr ''error'', msg, p]) st)\<lparr>lastError := msg\<rparr>
      in if cl then close st1 else st1)"

definition getLastError :: "SendListReadable \<Rightarrow> jsval" where
  "getLastError st = lastError st"

definition isClosed :: "SendListReadable \<Rightarrow> bool" where
  "isClosed st = destroyed st"

text \<open>
  The constructor, given the clock it will read. The callbacks \<^verbatim>\<open>doAtStart\<close> and \<^verbatim>\<open>onEnd\<close>
  run later, from a timeout and from the stream's end event, and are not part of it.
\<close>

record options =
  bufferTime :: "int option"
  addAtStart :: "jsval list option"

definition new_SendListReadable :: "(nat \<Rightarrow> int) \<Rightarrow> options \<Rightarrow> SendListReadable" where
  "new_SendListReadable clk opts =
     (let bt = (case bufferTime opts of None \<Rightarrow> 200 | Some b \<Rightarrow> if b = 0 then 200 else b);
          st = \<lparr>buffer = [], lastError = JUndefined, wait = bt, timerId = False,
                lastArgs = False, lastCallTime = None, lastInvokeTime = 0, chunks = [],
                ended = False, destroyed = False, errored = False, timeouts = 0,
                clock = clk, ticks = 0\<rparr>
      in case addAtStart opts of
           None \<Rightarrow> st
         | Some xs \<Rightarrow> ready (fold add xs st))"

section \<open>apiMiddleware\<close>

text \<open>
  What a handler can return or throw, as the middleware tells the cases apart: a
  \<^verbatim>\<open>Readable\<close>, an async generator (an object with a \<^verbatim>\<open>next\<close> function), an \<^verbatim>\<open>ApiError\<close> with
  its status and message, any other \<^verbatim>\<open>Error\<close> with its name and message, or a plain value.
  Awaiting a rejected promise is a throw.
\<close>

datatype readable = Stream nat | FromGenerator nat

datatype api_value =
    Plain jsval
  | ApiError int string
  | GenericError string string
  | ReadableV readable
  | AsyncGenerator nat

datatype handler_result = Returns api_value | Throws api_value

text \<open>The parts of the Koa context the middleware reads.\<close>

record koa_context =
  ctx_path :: string
  ctx_method :: string
  ctx_params :: jsval
  cookie_csrf :: "string option"
  revProxyPath :: jsval

type_synonym ApiHandler = "jsval \<Rightarrow> koa_context \<Rightarrow> handler_result"

type_synonym ApiHandlers = "string \<rightharpoonup> ApiHandler"

text \<open>
  What the middleware leaves behind: the assignments to \<^verbatim>\<open>ctx.status\<close> and \<^verbatim>\<open>ctx.body\<close>
  (\<open>None\<close> when it makes none), the stream piped into the SSE channel, whether it set
  \<^verbatim>\<open>ctx.state.dont_log\<close>, and the parameters the handler was called with (\<open>None\<close> when
  it was not called).
\<close>

record response =
  status :: "int option"
  body :: "jsval option"
  sse :: "readable option"
  dont_log :: bool
  handler_called :: "jsval option"

text \<open>
  Modelled from the spec: the status constants of \<^verbatim>\<open>./const\<close>, which is not under src/;
  the spec gives 400 for a bad request, 404 for an unmatched path and 401 for a CSRF
  mismatch.
\<close>

definition HTTP_BAD_REQUEST :: int where
  "HTTP_BAD_REQUEST = 400"

definition HTTP_NOT_FOUND :: int where
  "HTTP_NOT_FOUND = 404"

definition HTTP_UNAUTHORIZED :: int where
  "HTTP_UNAUTHORIZED = 401"

text \<open>A TypeError raised by the runtime inside the \<^verbatim>\<open>try\<close> block, with the engine's message.\<close>

definition type_error :: "string \<Rightarrow> api_value" where
  "type_error msg = GenericError ''TypeError'' msg"

fun isString :: "jsval \<Rightarrow> bool" where
  "isString (JStr s) = True"
| "isString x = False"

text \<open>
  \<^verbatim>\<open>removeStarting\<close> of \<^verbatim>\<open>./misc\<close> is not under src/: it is a parameter, giving the
  rewritten value or the error it throws.
\<close>

type_synonym remover = "jsval \<Rightarrow> jsval \<Rightarrow> api_value + jsval"

text \<open>\<^verbatim>\<open>v.forEach((x,i) => fixUri(v,i))\<close>: every element in turn, up to the first throw.\<close>

fun fixUri_each :: "remover \<Rightarrow> jsval \<Rightarrow> jsval list \<Rightarrow> api_value + jsval list" where
  "fixUri_each rm rpp [] = Inr []"
| "fixUri_each rm rpp (x # xs) =
     (case rm rpp x of
        Inl e \<Rightarrow> Inl e
      | Inr x' \<Rightarrow>
          (case fixUri_each rm rpp xs of
             Inl e \<Rightarrow> Inl e
           | Inr xs' \<Rightarrow> Inr (x' # xs')))"

text \<open>
  The body of the loop for one entry \<^verbatim>\<open>[k, v]\<close>, giving the value then held under \<open>k\<close>.
  A value that is not an array but has a string under \<^verbatim>\<open>0\<close> has no \<^verbatim>\<open>forEach\<close>.
\<close>

definition fix_entry :: "remover \<Rightarrow> jsval \<Rightarrow> string \<Rightarrow> jsval \<Rightarrow> api_value + jsval" where
  "fix_entry rm rpp k v =
     (if take 3 k = ''uri'' then
        (if isString v then rm rpp v
         else if isString (opt_index v 0) then
           (case v of
              JArr xs \<Rightarrow>
                (case fixUri_each rm rpp xs of
                   Inl e \<Rightarrow> Inl e
                 | Inr xs' \<Rightarrow> Inr (JArr xs'))
            | _ \<Rightarrow> Inl (type_error ''v.forEach is not a function''))
         else Inr v)
      else Inr v)"

fun fix_entries :: "remover \<Rightarrow> jsval \<Rightarrow> (string \<times> jsval) list \<Rightarrow> api_value + (string \<times> jsval) list" where
  "fix_entries rm rpp [] = Inr []"
| "fix_entries rm rpp ((k, v) # fs) =
     (case fix_entry rm rpp k v of
        Inl e \<Rightarrow> Inl e
      | Inr v' \<Rightarrow>
          (case fix_entries rm rpp fs of
             Inl e \<Rightarrow> Inl e
           | Inr fs' \<Rightarrow> Inr ((k, v') # fs')))"

text \<open>
  The loop over \<^verbatim>\<open>Object.entries(params)\<close>: a TypeError on \<^verbatim>\<open>undefined\<close> and \<^verbatim>\<open>null\<close>; the
  entries of an array, a string or another primitive have no key starting with \<^verbatim>\<open>uri\<close>.
\<close>

fun fix_params :: "remover \<Rightarrow> jsval \<Rightarrow> jsval \<Rightarrow> api_value + jsval" where
  "fix_params rm rpp JUndefined = Inl (type_error ''Cannot convert undefined or null to object'')"
| "fix_params rm rpp JNull = Inl (type_error ''Cannot convert undefined or null to object'')"
| "fix_params rm rpp (JObj fs) =
     (case fix_entries rm rpp fs of Inl e \<Rightarrow> Inl e | Inr fs' \<Rightarrow> Inr (JObj fs'))"
| "fix_params rm rpp p = Inr p"

text \<open>The parameters after \<^verbatim>\<open>if (ctx.state.revProxyPath) for (...)\<close>, or what the loop threw.\<close>

definition fixed_params :: "remover \<Rightarrow> koa_context \<Rightarrow> api_value + jsval" where
  "fixed_params rm ctx =
     (if truthy (revProxyPath ctx) then fix_params rm (revProxyPath ctx) (ctx_params ctx)
      else Inr (ctx_params ctx))"

text \<open>The read \<^verbatim>\<open>params.csrf\<close>.\<close>

fun read_csrf :: "jsval \<Rightarrow> api_value + jsval" where
  "read_csrf JUndefined = Inl (type_error ''Cannot read properties of undefined (reading csrf)'')"
| "read_csrf JNull = Inl (type_error ''Cannot read properties of null (reading csrf)'')"
| "read_csrf (JObj fs) = Inr (get_prop fs ''csrf'')"
| "read_csrf p = Inr JUndefined"

text \<open>\<^verbatim>\<open>await apiFun(params || {}, ctx)\<close> under the \<^verbatim>\<open>catch\<close>: the result, and the argument passed.\<close>

definition call_handler :: "ApiHandler \<Rightarrow> jsval \<Rightarrow> koa_context \<Rightarrow> api_value \<times> jsval option" where
  "call_handler h p ctx =
     (let a = (if truthy p then p else JObj [])
      in (case h a (ctx\<lparr>ctx_params := p\<rparr>) of Returns v \<Rightarrow> v | Throws e \<Rightarrow> e, Some a))"

text \<open>The \<^verbatim>\<open>try\<close> block with its \<^verbatim>\<open>catch\<close>: the value of \<open>res\<close>, and the handler's argument.\<close>

definition try_block :: "remover \<Rightarrow> ApiHandler \<Rightarrow> koa_context \<Rightarrow> api_value \<times> jsval option" where
  "try_block rm h ctx =
     (case fixed_params rm ctx of
        Inl e \<Rightarrow> (e, None)
      | Inr p \<Rightarrow>
          (case cookie_csrf ctx of
             None \<Rightarrow> call_handler h p ctx
           | Some c \<Rightarrow>
               if c = [] then call_handler h p ctx
               else (case read_csrf p of
                       Inl e \<Rightarrow> (e, None)
                     | Inr v \<Rightarrow>
                         if v \<noteq> JStr c then (ApiError HTTP_UNAUTHORIZED ''csrf'', None)
                         else call_handler h p ctx)))"

text \<open>
  Modelled from the spec: \<^verbatim>\<open>asyncGeneratorToReadable\<close> of \<^verbatim>\<open>./misc\<close>, which is not under
  src/, turns a lazy asynchronous sequence into a stream.
\<close>

fun to_readable :: "api_value \<Rightarrow> api_value" where
  "to_readable (AsyncGenerator g) = ReadableV (FromGenerator g)"
| "to_readable v = v"

text \<open>\<^verbatim>\<open>String(res)\<close> of an \<^verbatim>\<open>Error\<close> with the given name and message.\<close>

definition error_toString :: "string \<Rightarrow> string \<Rightarrow> string" where
  "error_toString name msg =
     (if name = [] then msg else if msg = [] then name else name @ '': '' @ msg)"

text \<open>The dispatch on \<open>res\<close> after the \<^verbatim>\<open>try\<close> block.\<close>

fun respond :: "bool \<Rightarrow> jsval option \<Rightarrow> api_value \<Rightarrow> response" where
  "respond dl called (ReadableV r) =
     \<lparr>status = None, body = None, sse = Some r, dont_log = dl, handler_called = called\<rparr>"
| "respond dl called (AsyncGenerator g) =
     \<lparr>status = None, body = None, sse = Some (FromGenerator g), dont_log = dl, handler_called = called\<rparr>"
| "respond dl called (ApiError st msg) =
     \<lparr>status = Some st, body = Some (JStr msg), sse = None, dont_log = dl, handler_called = called\<rparr>"
| "respond dl called (GenericError name msg) =
     \<lparr>status = Some HTTP_BAD_REQUEST,
      body = Some (JStr (if msg \<noteq> [] then msg else error_toString name msg)),
      sse = None, dont_log = dl, handler_called = called\<rparr>"
| "respond dl called (Plain v) =
     \<lparr>status = None, body = Some v, sse = None, dont_log = dl, handler_called = called\<rparr>"

text \<open>The middleware for one request; \<open>log_api\<close> is the value of the configuration entry.\<close>

definition apiMiddleware :: "bool \<Rightarrow> remover \<Rightarrow> ApiHandlers \<Rightarrow> koa_context \<Rightarrow> response" where
  "apiMiddleware log_api rm apis ctx =
     (case apis (ctx_path ctx) of
        None \<Rightarrow>
          \<lparr>status = Some HTTP_NOT_FOUND, body = Some (JStr ''invalid api''), sse = None,
           dont_log = \<not> log_api, handler_called = None\<rparr>
      | Some apiFun \<Rightarrow>
          (let (res, called) = try_block rm apiFun ctx
           in respond (\<not> log_api) called (to_readable res)))"

section \<open>Calls on one list\<close>

text \<open>
  The public methods, and the two things that happen to the object from outside: the
  debounce timeout running, and the stream being destroyed (by the transport when the
  request closes, or by the listener of the stream's end event). A sequence of calls
  runs in order and stops at the first call that throws.
\<close>

datatype call =
    Add jsval
  | Remove jsval
  | Update jsval jsval
  | Ready
  | Custom jsval
  | Props jsval
  | Error jsval bool jsval
  | Close
  | TimerExpired
  | Destroy

fun exec :: "js_runtime \<Rightarrow> call \<Rightarrow> SendListReadable \<Rightarrow> thrown + SendListReadable" where
  "exec rt (Add rec) st = Inr (add rec st)"
| "exec rt (Remove search) st = remove rt search st"
| "exec rt (Update search change) st = update rt search change st"
| "exec rt Ready st = Inr (ready st)"
| "exec rt (Custom data) st = Inr (custom data st)"
| "exec rt (Props p) st = Inr (props p st)"
| "exec rt (Error msg cl p) st = Inr (error msg cl p st)"
| "exec rt Close st = Inr (close st)"
| "exec rt TimerExpired st = Inr (timerExpired st)"
| "exec rt Destroy st = Inr (destroy st)"

fun run :: "js_runtime \<Rightarrow> call list \<Rightarrow> SendListReadable \<Rightarrow> thrown + SendListReadable" where
  "run rt [] st = Inr st"
| "run rt (c # cs) st = (case exec rt c st of Inl e \<Rightarrow> Inl e | Inr st' \<Rightarrow> run rt cs st')"

text \<open>
  A runtime for concrete runs: on plain objects whose property values are primitives,
  \<open>sample_matches\<close> is lodash's partial comparison (every property of the search
  is a property of the value, with the same value; the empty search matches anything).
\<close>

definition sample_matches :: "jsval \<Rightarrow> jsval \<Rightarrow> bool" where
  "sample_matches search v =
     (case search of
        JObj ps \<Rightarrow>
          (case v of
             JObj fs \<Rightarrow> list_all (\<lambda>(k, w). map_of fs k = Some w) ps
           | _ \<Rightarrow> ps = [])
      | _ \<Rightarrow> False)"

definition sample_runtime :: js_runtime where
  "sample_runtime = \<lparr>matches = sample_matches, assign_exotic = (\<lambda>target change. Inr target)\<rparr>"

definition no_options :: options where
  "no_options = \<lparr>bufferTime = None, addAtStart = None\<rparr>"

section \<open>Properties and concrete data\<close>

text \<open>The tuples the methods enqueue.\<close>

abbreviation add_entry :: "jsval \<Rightarrow> jsval" where
  "add_entry rec \<equiv> JArr [JStr ''add'', rec]"

abbreviation remove_entry :: "jsval \<Rightarrow> jsval" where
  "remove_entry search \<equiv> JArr [JStr ''remove'', search]"

abbreviation update_entry :: "jsval \<Rightarrow> jsval \<Rightarrow> jsval" where
  "update_entry search change \<equiv> JArr [JStr ''update'', search, change]"

abbreviation ready_entry :: jsval where
  "ready_entry \<equiv> JArr [JStr ''ready'']"

text \<open>
  A non-empty buffer has its flush scheduled: a timeout is pending and the debounced
  function has been called since it last ran.
\<close>

definition armed :: "SendListReadable \<Rightarrow> bool" where
  "armed st \<longleftrightarrow> (buffer st = [] \<or> (timerId st \<and> lastArgs st))"

definition bounded :: "SendListReadable \<Rightarrow> bool" where
  "bounded st \<longleftrightarrow> armed st \<and> length (buffer st) \<le> hard_limit"

text \<open>
  Between \<open>st\<close> and \<open>st'\<close> the entries \<open>batch\<close> were kept whole: they are the buffer of
  \<open>st'\<close> and nothing was pushed, or the buffer is empty and they were pushed to the
  stream as one chunk.
\<close>

definition handed_over :: "jsval list \<Rightarrow> SendListReadable \<Rightarrow> SendListReadable \<Rightarrow> bool" where
  "handed_over batch st st' \<longleftrightarrow>
     (buffer st' = batch \<and> chunks st' = chunks st) \<or>
     (buffer st' = [] \<and> chunks st' = chunks (Readable_push batch st))"

text \<open>The buffer and the chunks after a sequence of calls.\<close>

definition buffer_after :: "js_runtime \<Rightarrow> call list \<Rightarrow> SendListReadable \<Rightarrow> thrown + jsval list" where
  "buffer_after rt cs st = map_sum id buffer (run rt cs st)"

definition chunks_after :: "js_runtime \<Rightarrow> call list \<Rightarrow> SendListReadable \<Rightarrow> thrown + jsval list list" where
  "chunks_after rt cs st = map_sum id chunks (run rt cs st)"

definition ended_after :: "js_runtime \<Rightarrow> call list \<Rightarrow> SendListReadable \<Rightarrow> thrown + bool" where
  "ended_after rt cs st = map_sum id ended (run rt cs st)"

text \<open>Clocks: one that stands still, one that advances 1 ms and one 200 ms per reading.\<close>

definition steady_clock :: "nat \<Rightarrow> int" where
  "steady_clock n = 1000"

definition ticking_clock :: "nat \<Rightarrow> int" where
  "ticking_clock n = 1000 + int n"

definition slow_clock :: "nat \<Rightarrow> int" where
  "slow_clock n = 1000 + 200 * int n"

definition fresh :: SendListReadable where
  "fresh = new_SendListReadable steady_clock no_options"

definition spec_1 :: jsval where
  "spec_1 = JObj [(''id'', JNum 1)]"

definition rec_1 :: jsval where
  "rec_1 = JObj [(''id'', JNum 1), (''name'', JStr ''a'')]"

definition change_1 :: jsval where
  "change_1 = JObj [(''name'', JStr ''b'')]"

definition rec_2 :: jsval where
  "rec_2 = JObj [(''id'', JNum 1), (''k'', JNum 1)]"

definition spec_2 :: jsval where
  "spec_2 = JObj [(''id'', JNum 2), (''k'', JNum 1)]"

definition spec_k :: jsval where
  "spec_k = JObj [(''k'', JNum 1)]"

text \<open>The list after \<open>k\<close> calls of \<open>add(rec_1)\<close> on \<open>fresh\<close> with no flush in between.\<close>

definition filled :: "nat \<Rightarrow> SendListReadable" where
  "filled k =
     \<lparr>buffer = replicate k (add_entry rec_1), lastError = JUndefined, wait = 200,
      timerId = True, lastArgs = True, lastCallTime = Some 1000, lastInvokeTime = 1000,
      chunks = [], ended = False, destroyed = False, errored = False, timeouts = 1,
      clock = steady_clock, ticks = k\<rparr>"

text \<open>Handlers and requests for concrete runs of the middleware.\<close>

definition ok_handler :: ApiHandler where
  "ok_handler a c = Returns (Plain (JObj [(''status'', JStr ''ok'')]))"

definition forbidden_handler :: ApiHandler where
  "forbidden_handler a c = Throws (ApiError 403 ''forbidden'')"

definition broken_handler :: ApiHandler where
  "broken_handler a c = Throws (GenericError ''Error'' ''boom'')"

definition sample_apis :: ApiHandlers where
  "sample_apis = map_of [(''/api/ok'', ok_handler), (''/api/forbidden'', forbidden_handler),
     (''/api/broken'', broken_handler)]"

text \<open>
  Modelled from the spec: a \<^verbatim>\<open>removeStarting\<close> for concrete requests, which strips the
  proxy-path prefix from a string that starts with it.
\<close>

definition strip_prefix :: remover where
  "strip_prefix sub v =
     (case sub of
        JStr p \<Rightarrow>
          (case v of
             JStr s \<Rightarrow> Inr (JStr (if take (length p) s = p then drop (length p) s else s))
           | _ \<Rightarrow> Inl (type_error ''s.startsWith is not a function''))
      | _ \<Rightarrow> Inl (type_error ''s.startsWith is not a function''))"

definition request :: "string \<Rightarrow> jsval \<Rightarrow> string option \<Rightarrow> jsval \<Rightarrow> koa_context" where
  "request p ps c rpp =
     \<lparr>ctx_path = p, ctx_method = ''POST'', ctx_params = ps, cookie_csrf = c, revProxyPath = rpp\<rparr>"

text \<open>The stream still takes chunks: it was not ended, destroyed or put in error.\<close>

definition open_stream :: "SendListReadable \<Rightarrow> bool" where
  "open_stream st \<longleftrightarrow> \<not> ended st \<and> \<not> destroyed st \<and> \<not> errored st"

text \<open>
  Between \<open>st\<close> and \<open>st'\<close> the entries \<open>batch\<close> stayed together: they are the buffer of
  \<open>st'\<close> and the stream has the chunks it had; or they were flushed, the buffer of \<open>st'\<close>
  is empty, and the stream has them as one more chunk when it was open and has the
  chunks it had when it was not.
\<close>

definition kept_or_flushed :: "jsval list \<Rightarrow> SendListReadable \<Rightarrow> SendListReadable \<Rightarrow> bool" where
  "kept_or_flushed batch st st' \<longleftrightarrow>
     (buffer st' = batch \<and> chunks st' = chunks st) \<or>
     (buffer st' = [] \<and>
      chunks st' = (if open_stream st then chunks st @ [batch] else chunks st))"

text \<open>
  What a call that returns does to the entries of the buffer \<open>b\<close> by itself, before any
  flush: an enqueue appends its entry; \<open>remove\<close> takes out the first entry matching its
  search, unless that is a Remove entry, and appends a Remove entry, unless it took out
  an Add entry; \<open>update\<close> assigns the change to the first matching entry when that is an
  Add or Update entry, and appends an Update entry when no entry or one of another
  kind than Remove matches; the other calls leave the entries as they are.
\<close>

fun staged :: "js_runtime \<Rightarrow> call \<Rightarrow> jsval list \<Rightarrow> jsval list" where
  "staged rt (Add rec) b = b @ [add_entry rec]"
| "staged rt Ready b = b @ [ready_entry]"
| "staged rt (Custom data) b = b @ [data]"
| "staged rt (Props p) b = b @ [JArr [JStr ''props'', p]]"
| "staged rt (Error msg cl p) b = b @ [JArr [JStr ''error'', msg, p]]"
| "staged rt (Remove search) b =
     (case findIndex rt search b of
        Inr (Some idx) \<Rightarrow>
          if opt_index (b ! idx) 0 = JStr ''remove'' then b
          else if \<not> truthy (b ! idx) then b @ [remove_entry search]
          else if opt_index (b ! idx) 0 = JStr ''add'' then splice1 idx b
          else splice1 idx b @ [remove_entry search]
      | _ \<Rightarrow> b @ [remove_entry search])"
| "staged rt (Update search change) b =
     (if isEmpty change then b
      else case findIndex rt search b of
        Inr (Some idx) \<Rightarrow>
          if opt_index (b ! idx) 0 = JStr ''remove'' then b
          else if opt_index (b ! idx) 0 = JStr ''add'' then
            (case Object_assign rt (opt_index (b ! idx) 1) change of
               Inr merged \<Rightarrow> b[idx := set_index (b ! idx) 1 merged]
             | Inl e \<Rightarrow> b)
          else if opt_index (b ! idx) 0 = JStr ''update'' then
            (case Object_assign rt (opt_index (b ! idx) 2) change of
               Inr merged \<Rightarrow> b[idx := set_index (b ! idx) 2 merged]
             | Inl e \<Rightarrow> b)
          else b @ [update_entry search change]
      | _ \<Rightarrow> b @ [update_entry search change])"
| "staged rt Close b = b"
| "staged rt TimerExpired b = b"
| "staged rt Destroy b = b"

text \<open>
  An enqueue flushes at once: the buffer is at the hard limit, or a timeout is pending
  and the debounced call finds the buffer time elapsed.
\<close>

definition flush_due :: "SendListReadable \<Rightarrow> bool" where
  "flush_due st \<longleftrightarrow>
     hard_limit \<le> length (buffer st) \<or>
     (timerId st \<and> shouldInvoke (clock st (ticks st)) st)"

text \<open>The entry a call enqueues as its last step, for the calls that end with an enqueue.\<close>

fun entry_of :: "call \<Rightarrow> jsval option" where
  "entry_of (Add rec) = Some (add_entry rec)"
| "entry_of Ready = Some ready_entry"
| "entry_of (Custom data) = Some data"
| "entry_of (Props p) = Some (JArr [JStr ''props'', p])"
| "entry_of (Error msg cl p) = (if cl then None else Some (JArr [JStr ''error'', msg, p]))"
| "entry_of c = None"

text \<open>The list with the state of its stream erased: no chunk, and the stream open.\<close>

definition queue :: "SendListReadable \<Rightarrow> SendListReadable" where
  "queue st = st\<lparr>chunks := [], ended := False, destroyed := False, errored := False\<rparr>"

definition queue_after :: "js_runtime \<Rightarrow> call \<Rightarrow> SendListReadable \<Rightarrow> thrown + SendListReadable" where
  "queue_after rt c st = map_sum id queue (exec rt c st)"

definition oops_handler :: ApiHandler where
  "oops_handler a c = Throws (Plain (JStr ''oops''))"

definition forbidden_result_handler :: ApiHandler where
  "forbidden_result_handler a c = Returns (ApiError 403 ''forbidden'')"

definition oops_apis :: ApiHandlers where
  "oops_apis = map_of [(''/api/oops'', oops_handler)]"

section \<open>The scan\<close>

lemma findIndex_Some_less: "findIndex rt s xs = Inr (Some i) \<Longrightarrow> i < length xs"
  by (induction xs arbitrary: i) (auto split: sum.splits if_splits option.splits)

lemma findIndex_append_None:
  "findIndex rt s xs = Inr None \<Longrightarrow>
   findIndex rt s (xs @ ys) =
     (case findIndex rt s ys of
        Inl e \<Rightarrow> Inl e
      | Inr None \<Rightarrow> Inr None
      | Inr (Some i) \<Rightarrow> Inr (Some (length xs + i)))"
  by (induction xs) (auto split: sum.splits if_splits option.splits)

lemma findIndex_snoc_match:
  "findIndex rt s xs = Inr None \<Longrightarrow> get_index e 1 = Inr v \<Longrightarrow> matches rt s v \<Longrightarrow>
   findIndex rt s (xs @ [e]) = Inr (Some (length xs))"
  by (simp add: findIndex_append_None)

lemma splice1_snoc: "splice1 (length xs) (xs @ [e]) = xs"
  by (simp add: splice1_def)

section \<open>Field-wise assignment\<close>

lemma map_of_replace_other:
  "k' \<noteq> k \<Longrightarrow>
   map_of (map (\<lambda>(a, b). if a = k then (a, v) else (a, b)) fs) k' = map_of fs k'"
  by (induction fs) auto

lemma map_of_replace_same:
  "k \<in> fst ` set fs \<Longrightarrow>
   map_of (map (\<lambda>(a, b). if a = k then (a, v) else (a, b)) fs) k = Some v"
  by (induction fs) auto

lemma map_of_set_prop:
  "map_of (set_prop k v fs) k' = (if k' = k then Some v else map_of fs k')"
proof (cases "k \<in> fst ` set fs")
  case True
  then show ?thesis
    by (simp add: set_prop_def map_of_replace_other map_of_replace_same)
next
  case False
  then have "map_of fs k = None" by (simp add: map_of_eq_None_iff)
  with False show ?thesis by (auto simp: set_prop_def map_add_def split: option.splits)
qed

lemma map_of_assign_props:
  "map_of (assign_props tgt src) k =
     (case map_of (rev src) k of None \<Rightarrow> map_of tgt k | Some v \<Rightarrow> Some v)"
  unfolding assign_props_def
proof (induction src arbitrary: tgt)
  case Nil
  then show ?case by simp
next
  case (Cons kv src)
  obtain k0 v0 where kv: "kv = (k0, v0)" by (cases kv)
  show ?case
    by (simp add: kv Cons.IH map_of_set_prop map_add_def split: option.splits)
qed

section \<open>The stream and the debounced function\<close>

lemma buffer_Readable_push: "buffer (Readable_push c st) = buffer st"
  by (simp add: Readable_push_def errorOrDestroy_def)

lemma chunks_Readable_push:
  "chunks (Readable_push c st) =
     (if ended st \<or> destroyed st \<or> errored st then chunks st else chunks st @ [c])"
  by (simp add: Readable_push_def errorOrDestroy_def)

lemma ended_Readable_push: "ended (Readable_push c st) = ended st"
  by (simp add: Readable_push_def errorOrDestroy_def)

lemma buffer_invokeFunc: "buffer (invokeFunc t st) = []"
  by (simp add: invokeFunc_def processBuffer_func_def)

lemma flush_armed: "armed st \<Longrightarrow> timerId st \<Longrightarrow> buffer (processBuffer_flush st) = []"
  unfolding processBuffer_flush_def now_def Let_def prod.case trailingEdge_def armed_def
  by (auto simp: buffer_invokeFunc)

lemma flush_bounded: "bounded st \<Longrightarrow> bounded (processBuffer_flush st)"
  unfolding processBuffer_flush_def now_def Let_def prod.case trailingEdge_def armed_def bounded_def
  by (auto simp: buffer_invokeFunc)

lemma timerExpired_bounded: "bounded st \<Longrightarrow> bounded (timerExpired st)"
  unfolding timerExpired_def now_def Let_def prod.case trailingEdge_def setTimeout_def armed_def
    bounded_def
  by (auto simp: buffer_invokeFunc)

lemma processBuffer_bounded:
  "length (buffer st) \<le> hard_limit \<Longrightarrow> bounded (processBuffer st)"
  unfolding processBuffer_def now_def Let_def prod.case leadingEdge_def setTimeout_def
    clearTimeout_def armed_def bounded_def
  by (auto simp: buffer_invokeFunc)

lemma processBuffer_cases:
  "(buffer (processBuffer st) = buffer st \<and> chunks (processBuffer st) = chunks st) \<or>
   (buffer (processBuffer st) = [] \<and> chunks (processBuffer st) = chunks (Readable_push (buffer st) st))"
  unfolding processBuffer_def now_def Let_def prod.case leadingEdge_def setTimeout_def
    clearTimeout_def invokeFunc_def
    processBuffer_func_def
  by (simp add: chunks_Readable_push)

lemma flush_cases:
  "(buffer (processBuffer_flush st) = buffer st \<and> chunks (processBuffer_flush st) = chunks st) \<or>
   (buffer (processBuffer_flush st) = [] \<and>
    chunks (processBuffer_flush st) = chunks (Readable_push (buffer st) st))"
  unfolding processBuffer_flush_def now_def Let_def prod.case trailingEdge_def invokeFunc_def
    processBuffer_func_def
  by (simp add: chunks_Readable_push)

lemma u_push_at_limit:
  assumes "bounded st" and "length (buffer st) = hard_limit"
  shows "buffer (u_push rec st) = [] \<and>
         chunks (u_push rec st) = chunks (Readable_push (buffer st @ [rec]) st)"
proof -
  have "buffer st \<noteq> []"
    using assms(2) by (auto simp: hard_limit_def)
  then have t: "timerId st" "lastArgs st"
    using assms(1) by (auto simp: bounded_def armed_def)
  have u: "u_push rec st = processBuffer_flush (st\<lparr>buffer := buffer st @ [rec]\<rparr>)"
    using assms(2) by (simp add: u_push_def Let_def)
  show ?thesis
    unfolding u processBuffer_flush_def now_def Let_def prod.case trailingEdge_def invokeFunc_def
      processBuffer_func_def
    using t by (simp add: chunks_Readable_push)
qed

lemma u_push_bounded: "bounded st \<Longrightarrow> bounded (u_push rec st)"
proof -
  assume b: "bounded st"
  show ?thesis
  proof (cases "length (buffer st) = hard_limit")
    case True
    with b have "buffer (u_push rec st) = []" by (simp add: u_push_at_limit)
    then show ?thesis by (simp add: bounded_def armed_def)
  next
    case False
    with b have "length (buffer st) < hard_limit" by (simp add: bounded_def)
    then show ?thesis
      by (simp add: u_push_def Let_def processBuffer_bounded)
  qed
qed

lemma u_push_handed_over: "handed_over (buffer st @ [rec]) st (u_push rec st)"
proof -
  let ?st1 = "st\<lparr>buffer := buffer st @ [rec]\<rparr>"
  show ?thesis
  proof (cases "length (buffer ?st1) > hard_limit")
    case True
    then have u: "u_push rec st = processBuffer_flush ?st1"
      by (simp add: u_push_def Let_def)
    show ?thesis
      using flush_cases [of ?st1] by (auto simp: handed_over_def u chunks_Readable_push)
  next
    case False
    then have u: "u_push rec st = processBuffer ?st1"
      by (simp add: u_push_def Let_def)
    show ?thesis
      using processBuffer_cases [of ?st1] by (auto simp: handed_over_def u chunks_Readable_push)
  qed
qed

lemma handed_over_frame:
  "handed_over batch (st\<lparr>buffer := b\<rparr>) st' = handed_over batch st st'"
  by (simp add: handed_over_def chunks_Readable_push)

section \<open>The bound is kept by every call\<close>

lemma splice_bounded: "bounded st \<Longrightarrow> bounded (st\<lparr>buffer := splice1 i (buffer st)\<rparr>)"
  by (auto simp: bounded_def armed_def splice1_def)

lemma list_update_bounded: "bounded st \<Longrightarrow> bounded (st\<lparr>buffer := (buffer st)[i := e]\<rparr>)"
  by (auto simp: bounded_def armed_def)

lemma remove_bounded: "bounded st \<Longrightarrow> remove rt s st = Inr st' \<Longrightarrow> bounded st'"
  by (auto simp: remove_def Let_def u_push_bounded splice_bounded
      split: sum.splits option.splits if_splits)

lemma update_bounded: "bounded st \<Longrightarrow> update rt s c st = Inr st' \<Longrightarrow> bounded st'"
  by (auto simp: update_def Let_def u_push_bounded list_update_bounded
      split: sum.splits option.splits if_splits)

lemma close_bounded: "bounded st \<Longrightarrow> bounded (close st)"
  using flush_bounded [of st]
  by (auto simp: close_def Readable_push_null_def bounded_def armed_def)

lemma error_bounded: "bounded st \<Longrightarrow> bounded (error msg cl p st)"
proof -
  assume "bounded st"
  then have "bounded (u_push (JArr [JStr ''error'', msg, p]) st)" by (rule u_push_bounded)
  then have "bounded ((u_push (JArr [JStr ''error'', msg, p]) st)\<lparr>lastError := msg\<rparr>)"
    by (simp add: bounded_def armed_def)
  then show ?thesis
    by (simp add: error_def Let_def close_bounded)
qed

lemma destroy_bounded: "bounded st \<Longrightarrow> bounded (destroy st)"
  by (simp add: destroy_def bounded_def armed_def)

lemma exec_bounded: "bounded st \<Longrightarrow> exec rt c st = Inr st' \<Longrightarrow> bounded st'"
proof (cases c)
  case (Add x)
  assume "bounded st" "exec rt c st = Inr st'"
  with Add show ?thesis by (simp add: add_def) (metis u_push_bounded)
next
  case (Remove s)
  assume "bounded st" "exec rt c st = Inr st'"
  with Remove show ?thesis using remove_bounded by simp
next
  case (Update s ch)
  assume "bounded st" "exec rt c st = Inr st'"
  with Update show ?thesis using update_bounded by simp
next
  case Ready
  assume "bounded st" "exec rt c st = Inr st'"
  with Ready show ?thesis by (simp add: ready_def) (metis u_push_bounded)
next
  case (Custom d)
  assume "bounded st" "exec rt c st = Inr st'"
  with Custom show ?thesis by (simp add: custom_def) (metis u_push_bounded)
next
  case (Props p)
  assume "bounded st" "exec rt c st = Inr st'"
  with Props show ?thesis by (simp add: props_def) (metis u_push_bounded)
next
  case (Error m cl p)
  assume "bounded st" "exec rt c st = Inr st'"
  with Error show ?thesis using error_bounded by auto
next
  case Close
  assume "bounded st" "exec rt c st = Inr st'"
  with Close show ?thesis using close_bounded by auto
next
  case TimerExpired
  assume "bounded st" "exec rt c st = Inr st'"
  with TimerExpired show ?thesis using timerExpired_bounded by auto
next
  case Destroy
  assume "bounded st" "exec rt c st = Inr st'"
  with Destroy show ?thesis using destroy_bounded by auto
qed

lemma run_bounded: "bounded st \<Longrightarrow> run rt cs st = Inr st' \<Longrightarrow> bounded st'"
proof (induction cs arbitrary: st)
  case Nil
  then show ?case by simp
next
  case (Cons c cs)
  from Cons.prems(2) obtain st1 where e: "exec rt c st = Inr st1" and r: "run rt cs st1 = Inr st'"
    by (cases "exec rt c st") simp_all
  from Cons.prems(1) e have "bounded st1" by (rule exec_bounded)
  then show ?case using r by (rule Cons.IH)
qed

lemma fold_add_bounded: "bounded st \<Longrightarrow> bounded (fold add xs st)"
  by (induction xs arbitrary: st) (simp_all add: add_def u_push_bounded)

lemma new_bounded: "bounded (new_SendListReadable clk opts)"
proof -
  have e: "bounded \<lparr>buffer = [], lastError = JUndefined, wait = w, timerId = False,
                lastArgs = False, lastCallTime = None, lastInvokeTime = 0, chunks = [],
                ended = False, destroyed = False, errored = False, timeouts = 0,
                clock = clk, ticks = 0\<rparr>" for w
    by (simp add: bounded_def armed_def)
  show ?thesis
  proof (cases "addAtStart opts")
    case None
    then show ?thesis by (simp add: new_SendListReadable_def Let_def e)
  next
    case (Some xs)
    then show ?thesis
      by (simp add: new_SendListReadable_def Let_def ready_def e fold_add_bounded u_push_bounded)
  qed
qed

lemma reachable_bounded:
  "run rt calls (new_SendListReadable clk opts) = Inr st \<Longrightarrow> bounded st"
  using new_bounded by (rule run_bounded)

section \<open>The first matching entry decides\<close>

lemma update_first_add:
  assumes "\<not> isEmpty c"
    and "findIndex rt s (buffer st) = Inr (Some i)"
    and "buffer st ! i = add_entry (JObj fs)"
  shows "update rt s c st =
     Inr (st\<lparr>buffer := (buffer st)[i := add_entry (JObj (assign_props fs (own_props c)))]\<rparr>)"
  using assms by (simp add: update_def opt_index_def)

lemma update_first_update:
  assumes "\<not> isEmpty c"
    and "findIndex rt s (buffer st) = Inr (Some i)"
    and "buffer st ! i = update_entry t (JObj cs)"
  shows "update rt s c st =
     Inr (st\<lparr>buffer := (buffer st)[i := update_entry t (JObj (assign_props cs (own_props c)))]\<rparr>)"
  using assms by (simp add: update_def opt_index_def)

lemma remove_no_match:
  assumes "findIndex rt s (buffer st) = Inr None"
  shows "\<exists>st'. remove rt s st = Inr st' \<and> handed_over (buffer st @ [remove_entry s]) st st'"
  using assms by (simp add: remove_def u_push_handed_over)

lemma remove_first_update:
  assumes "findIndex rt s (buffer st) = Inr (Some i)"
    and "buffer st ! i = update_entry t c"
  shows "\<exists>st'. remove rt s st = Inr st' \<and>
           handed_over (splice1 i (buffer st) @ [remove_entry s]) st st'"
proof -
  let ?st1 = "st\<lparr>buffer := splice1 i (buffer st)\<rparr>"
  have "remove rt s st = Inr (u_push (remove_entry s) ?st1)"
    using assms by (simp add: remove_def opt_index_def)
  moreover have "handed_over (buffer ?st1 @ [remove_entry s]) ?st1 (u_push (remove_entry s) ?st1)"
    by (rule u_push_handed_over)
  ultimately show ?thesis
    by (simp add: handed_over_frame)
qed

section \<open>After the end of the stream\<close>

lemma processBuffer_ended:
  "ended st \<Longrightarrow> ended (processBuffer st) \<and> chunks (processBuffer st) = chunks st"
  unfolding processBuffer_def now_def Let_def prod.case leadingEdge_def setTimeout_def
    clearTimeout_def invokeFunc_def
    processBuffer_func_def
  by (simp add: chunks_Readable_push ended_Readable_push)

lemma flush_ended:
  "ended st \<Longrightarrow> ended (processBuffer_flush st) \<and> chunks (processBuffer_flush st) = chunks st"
  unfolding processBuffer_flush_def now_def Let_def prod.case trailingEdge_def invokeFunc_def
    processBuffer_func_def
  by (simp add: chunks_Readable_push ended_Readable_push)

lemma timerExpired_ended:
  "ended st \<Longrightarrow> ended (timerExpired st) \<and> chunks (timerExpired st) = chunks st"
  unfolding timerExpired_def now_def Let_def prod.case trailingEdge_def setTimeout_def
    invokeFunc_def processBuffer_func_def
  by (simp add: chunks_Readable_push ended_Readable_push)

lemma u_push_ended:
  "ended st \<Longrightarrow> ended (u_push rec st) \<and> chunks (u_push rec st) = chunks st"
  using processBuffer_ended [of "st\<lparr>buffer := buffer st @ [rec]\<rparr>"]
    flush_ended [of "st\<lparr>buffer := buffer st @ [rec]\<rparr>"]
  by (simp add: u_push_def Let_def)

lemma close_ended:
  "ended st \<Longrightarrow> ended (close st) \<and> chunks (close st) = chunks st"
  using flush_ended [of st] by (simp add: close_def Readable_push_null_def)

lemma remove_ended:
  "ended st \<Longrightarrow> remove rt s st = Inr st' \<Longrightarrow> ended st' \<and> chunks st' = chunks st"
  using u_push_ended [of st "remove_entry s"]
    u_push_ended [of "st\<lparr>buffer := b\<rparr>" "remove_entry s" for b]
  by (auto simp: remove_def Let_def split: sum.splits option.splits if_splits)

lemma update_ended:
  "ended st \<Longrightarrow> update rt s c st = Inr st' \<Longrightarrow> ended st' \<and> chunks st' = chunks st"
  using u_push_ended [of st "update_entry s c"]
  by (auto simp: update_def Let_def split: sum.splits option.splits if_splits)

lemma error_ended:
  "ended st \<Longrightarrow> ended (error msg cl p st) \<and> chunks (error msg cl p st) = chunks st"
  using u_push_ended [of st "JArr [JStr ''error'', msg, p]"]
    close_ended [of "(u_push (JArr [JStr ''error'', msg, p]) st)\<lparr>lastError := msg\<rparr>"]
  by (simp add: error_def Let_def)

lemma exec_ended:
  "ended st \<Longrightarrow> exec rt c st = Inr st' \<Longrightarrow> ended st' \<and> chunks st' = chunks st"
proof (cases c)
  case (Add x)
  assume "ended st" "exec rt c st = Inr st'"
  with Add show ?thesis using u_push_ended [of st "add_entry x"] by (auto simp: add_def)
next
  case (Remove s)
  assume "ended st" "exec rt c st = Inr st'"
  with Remove show ?thesis using remove_ended by simp
next
  case (Update s ch)
  assume "ended st" "exec rt c st = Inr st'"
  with Update show ?thesis using update_ended by simp
next
  case Ready
  assume "ended st" "exec rt c st = Inr st'"
  with Ready show ?thesis using u_push_ended [of st ready_entry] by (auto simp: ready_def)
next
  case (Custom d)
  assume "ended st" "exec rt c st = Inr st'"
  with Custom show ?thesis using u_push_ended [of st d] by (auto simp: custom_def)
next
  case (Props p)
  assume "ended st" "exec rt c st = Inr st'"
  with Props show ?thesis
    using u_push_ended [of st "JArr [JStr ''props'', p]"] by (auto simp: props_def)
next
  case (Error m cl p)
  assume "ended st" "exec rt c st = Inr st'"
  with Error show ?thesis using error_ended [of st m cl p] by auto
next
  case Close
  assume "ended st" "exec rt c st = Inr st'"
  with Close show ?thesis using close_ended [of st] by auto
next
  case TimerExpired
  assume "ended st" "exec rt c st = Inr st'"
  with TimerExpired show ?thesis using timerExpired_ended [of st] by auto
next
  case Destroy
  assume "ended st" "exec rt c st = Inr st'"
  with Destroy show ?thesis by (auto simp: destroy_def)
qed

lemma close_bounded_result:
  assumes "bounded st"
  shows "buffer (close st) = [] \<and> ended (close st) \<and>
     (\<not> ended st \<and> \<not> destroyed st \<and> \<not> errored st \<and> buffer st \<noteq> [] \<longrightarrow>
        chunks (close st) = chunks st @ [buffer st])"
proof (cases "buffer st = []")
  case True
  have "buffer (processBuffer_flush st) = []"
    using flush_cases [of st] True by auto
  then show ?thesis
    using True by (simp add: close_def Readable_push_null_def)
next
  case False
  with assms have t: "timerId st" "lastArgs st" by (auto simp: bounded_def armed_def)
  show ?thesis
    unfolding close_def processBuffer_flush_def now_def Let_def prod.case trailingEdge_def
      invokeFunc_def processBuffer_func_def Readable_push_null_def
    using t by (simp add: chunks_Readable_push ended_Readable_push)
qed

section \<open>The middleware\<close>

lemma fix_entries_other_keys:
  "fix_entries rm rpp fs = Inr fs' \<Longrightarrow> take 3 k \<noteq> ''uri'' \<Longrightarrow> map_of fs' k = map_of fs k"
proof (induction fs arbitrary: fs')
  case Nil
  then show ?case by simp
next
  case (Cons kv fs)
  obtain k0 v0 where kv: "kv = (k0, v0)" by (cases kv)
  from Cons.prems(1) kv obtain v1 fs1 where
    e: "fix_entry rm rpp k0 v0 = Inr v1" and r: "fix_entries rm rpp fs = Inr fs1"
    and f: "fs' = (k0, v1) # fs1"
    by (auto split: sum.splits)
  have ih: "map_of fs1 k = map_of fs k" using Cons.IH r Cons.prems(2) by blast
  show ?case
  proof (cases "k0 = k")
    case True
    with Cons.prems(2) e have "v1 = v0" by (simp add: fix_entry_def)
    then show ?thesis using kv f True by simp
  next
    case False
    then show ?thesis using kv f ih by simp
  qed
qed

lemma fixed_params_csrf:
  assumes "ctx_params ctx = JObj fs0" and "fixed_params rm ctx = Inr p"
  shows "\<exists>fs. p = JObj fs \<and> get_prop fs ''csrf'' = get_prop fs0 ''csrf''"
proof (cases "truthy (revProxyPath ctx)")
  case True
  with assms obtain fs where f: "fix_entries rm (revProxyPath ctx) fs0 = Inr fs" and p: "p = JObj fs"
    by (auto simp: fixed_params_def split: sum.splits)
  have "map_of fs ''csrf'' = map_of fs0 ''csrf''"
    using f by (rule fix_entries_other_keys) simp
  then show ?thesis using p by (simp add: get_prop_def)
next
  case False
  with assms have "p = JObj fs0" by (simp add: fixed_params_def)
  then show ?thesis by simp
qed

lemma handler_called_respond: "handler_called (respond dl cl v) = cl"
  by (cases v) simp_all

section \<open>What a call does to the buffered entries\<close>

lemma handed_over_kept_or_flushed:
  "handed_over batch st st' = kept_or_flushed batch st st'"
  by (auto simp: handed_over_def kept_or_flushed_def chunks_Readable_push open_stream_def)

lemma kept_or_flushed_frame:
  "kept_or_flushed batch (st\<lparr>buffer := b\<rparr>) st' = kept_or_flushed batch st st'"
  by (simp add: kept_or_flushed_def open_stream_def)

lemma u_push_kept_or_flushed: "kept_or_flushed (buffer st @ [rec]) st (u_push rec st)"
  using u_push_handed_over [of st rec] by (simp add: handed_over_kept_or_flushed)

lemma shouldInvoke_ticks: "shouldInvoke t (st\<lparr>ticks := n\<rparr>) = shouldInvoke t st"
  by (simp add: shouldInvoke_def split: option.splits)

lemma shouldInvoke_buffer: "shouldInvoke t (st\<lparr>buffer := b\<rparr>) = shouldInvoke t st"
  by (simp add: shouldInvoke_def split: option.splits)

lemma u_push_buffer_exact:
  assumes "bounded st"
  shows "buffer (u_push rec st) = (if flush_due st then [] else buffer st @ [rec])"
proof (cases "length (buffer st) = hard_limit")
  case True
  then show ?thesis
    using assms u_push_at_limit [of st rec] by (simp add: flush_due_def)
next
  case False
  with assms have lt: "length (buffer st) < hard_limit" by (simp add: bounded_def)
  have u: "u_push rec st = processBuffer (st\<lparr>buffer := buffer st @ [rec]\<rparr>)"
    using lt by (simp add: u_push_def Let_def)
  show ?thesis
    unfolding u processBuffer_def now_def Let_def prod.case leadingEdge_def setTimeout_def
      clearTimeout_def invokeFunc_def processBuffer_func_def
    using lt by (simp add: flush_due_def shouldInvoke_ticks shouldInvoke_buffer buffer_Readable_push)
qed

lemma u_push_outcome:
  assumes "bounded st"
  shows "(buffer (u_push rec st) = buffer st @ [rec] \<and> chunks (u_push rec st) = chunks st \<and>
          open_stream (u_push rec st) = open_stream st \<and>
          timerId (u_push rec st) \<and> lastArgs (u_push rec st)) \<or>
         (buffer (u_push rec st) = [] \<and>
          chunks (u_push rec st) = (if open_stream st then chunks st @ [buffer st @ [rec]] else chunks st) \<and>
          \<not> (timerId (u_push rec st) \<and> lastArgs (u_push rec st)))"
proof (cases "length (buffer st) = hard_limit")
  case True
  then have "buffer st \<noteq> []" by (auto simp: hard_limit_def)
  then have t: "timerId st" "lastArgs st"
    using assms by (auto simp: bounded_def armed_def)
  have u: "u_push rec st = processBuffer_flush (st\<lparr>buffer := buffer st @ [rec]\<rparr>)"
    using True by (simp add: u_push_def Let_def)
  show ?thesis
    unfolding u processBuffer_flush_def now_def Let_def prod.case trailingEdge_def invokeFunc_def
      processBuffer_func_def
    using t by (simp add: chunks_Readable_push open_stream_def Readable_push_def errorOrDestroy_def)
next
  case False
  with assms have lt: "length (buffer st) < hard_limit" by (simp add: bounded_def)
  have u: "u_push rec st = processBuffer (st\<lparr>buffer := buffer st @ [rec]\<rparr>)"
    using lt by (simp add: u_push_def Let_def)
  show ?thesis
    unfolding u processBuffer_def now_def Let_def prod.case leadingEdge_def setTimeout_def
      clearTimeout_def invokeFunc_def processBuffer_func_def
    by (simp add: open_stream_def Readable_push_def errorOrDestroy_def)
qed

lemma flush_kept_or_flushed: "kept_or_flushed (buffer st) st (processBuffer_flush st)"
  using flush_cases [of st]
  by (auto simp: kept_or_flushed_def chunks_Readable_push open_stream_def)

lemma timerExpired_kept_or_flushed: "kept_or_flushed (buffer st) st (timerExpired st)"
  unfolding timerExpired_def now_def Let_def prod.case trailingEdge_def setTimeout_def
    invokeFunc_def processBuffer_func_def kept_or_flushed_def
  by (simp add: chunks_Readable_push open_stream_def)

lemma buffer_Readable_push_null: "buffer (Readable_push_null st) = buffer st"
  by (simp add: Readable_push_null_def)

lemma chunks_Readable_push_null: "chunks (Readable_push_null st) = chunks st"
  by (simp add: Readable_push_null_def)

lemma close_kept_or_flushed: "kept_or_flushed (buffer st) st (close st)"
proof -
  have "kept_or_flushed (buffer st) st (close st) =
      kept_or_flushed (buffer st) st (processBuffer_flush st)"
    by (simp add: kept_or_flushed_def close_def buffer_Readable_push_null
        chunks_Readable_push_null)
  then show ?thesis by (simp add: flush_kept_or_flushed)
qed

lemma remove_kept_or_flushed:
  assumes "remove rt s st = Inr st'"
  shows "kept_or_flushed (staged rt (Remove s) (buffer st)) st st'"
proof (cases "findIndex rt s (buffer st)")
  case (Inl e)
  with assms show ?thesis by (simp add: remove_def)
next
  case (Inr r)
  show ?thesis
  proof (cases r)
    case None
    with Inr assms show ?thesis
      using u_push_kept_or_flushed [of st "remove_entry s"] by (auto simp: remove_def)
  next
    case (Some i)
    let ?st1 = "st\<lparr>buffer := splice1 i (buffer st)\<rparr>"
    have k: "kept_or_flushed (splice1 i (buffer st) @ [remove_entry s]) st
        (u_push (remove_entry s) ?st1)"
      using u_push_kept_or_flushed [of ?st1 "remove_entry s"]
      by (simp add: kept_or_flushed_frame)
    have k0: "kept_or_flushed (buffer st) st st"
      "kept_or_flushed (splice1 i (buffer st)) st ?st1"
      by (simp_all add: kept_or_flushed_def)
    show ?thesis
      using Inr Some assms k k0 u_push_kept_or_flushed [of st "remove_entry s"]
      by (auto simp: remove_def Let_def split: if_splits)
  qed
qed

lemma update_kept_or_flushed:
  assumes "update rt s c st = Inr st'"
  shows "kept_or_flushed (staged rt (Update s c) (buffer st)) st st'"
proof (cases "isEmpty c")
  case True
  with assms show ?thesis by (simp add: update_def kept_or_flushed_def)
next
  case ne: False
  show ?thesis
  proof (cases "findIndex rt s (buffer st)")
    case (Inl e)
    with assms ne show ?thesis by (simp add: update_def)
  next
    case (Inr r)
    show ?thesis
    proof (cases r)
      case None
      with Inr assms ne show ?thesis
        using u_push_kept_or_flushed [of st "update_entry s c"] by (auto simp: update_def)
    next
      case (Some i)
      have g: "get_index x k = Inr (opt_index x k)" if "opt_index x 0 = JStr n" for x k n
        using that by (cases x) (simp_all add: opt_index_def)
      have k0: "kept_or_flushed b st (st\<lparr>buffer := b\<rparr>)" for b
        by (simp add: kept_or_flushed_def)
      have k1: "kept_or_flushed (buffer st) st st"
        by (simp add: kept_or_flushed_def)
      show ?thesis
        using Inr Some assms ne k0 k1 u_push_kept_or_flushed [of st "update_entry s c"]
        by (auto simp: update_def Let_def g split: if_splits sum.splits)
    qed
  qed
qed

lemma close_armed:
  assumes "timerId st" and "lastArgs st"
  shows "buffer (close st) = [] \<and>
         chunks (close st) = (if open_stream st then chunks st @ [buffer st] else chunks st)"
  unfolding close_def processBuffer_flush_def now_def Let_def prod.case trailingEdge_def
    invokeFunc_def processBuffer_func_def
  using assms
  by (simp add: buffer_Readable_push_null chunks_Readable_push_null chunks_Readable_push
      open_stream_def)

lemma close_disarmed:
  assumes "\<not> (timerId st \<and> lastArgs st)"
  shows "buffer (close st) = buffer st \<and> chunks (close st) = chunks st"
  unfolding close_def processBuffer_flush_def now_def Let_def prod.case trailingEdge_def
    invokeFunc_def processBuffer_func_def
  using assms
  by (auto simp: buffer_Readable_push_null chunks_Readable_push_null)

lemma error_kept_or_flushed:
  assumes "bounded st"
  shows "kept_or_flushed (buffer st @ [JArr [JStr ''error'', msg, p]]) st (error msg cl p st)"
proof (cases cl)
  case False
  then show ?thesis
    using u_push_kept_or_flushed [of st "JArr [JStr ''error'', msg, p]"]
    by (simp add: error_def Let_def kept_or_flushed_def)
next
  case True
  let ?e = "JArr [JStr ''error'', msg, p]"
  let ?st1 = "(u_push ?e st)\<lparr>lastError := msg\<rparr>"
  have e: "error msg cl p st = close ?st1"
    using True by (simp add: error_def Let_def)
  have f: "buffer ?st1 = buffer (u_push ?e st)" "chunks ?st1 = chunks (u_push ?e st)"
    "open_stream ?st1 = open_stream (u_push ?e st)" "timerId ?st1 = timerId (u_push ?e st)"
    "lastArgs ?st1 = lastArgs (u_push ?e st)"
    by (simp_all add: open_stream_def)
  from u_push_outcome [OF assms, of ?e]
  show ?thesis
  proof
    assume a: "buffer (u_push ?e st) = buffer st @ [?e] \<and> chunks (u_push ?e st) = chunks st \<and>
          open_stream (u_push ?e st) = open_stream st \<and>
          timerId (u_push ?e st) \<and> lastArgs (u_push ?e st)"
    then have "timerId ?st1" "lastArgs ?st1" by simp_all
    then have "buffer (close ?st1) = [] \<and>
         chunks (close ?st1) = (if open_stream ?st1 then chunks ?st1 @ [buffer ?st1] else chunks ?st1)"
      by (rule close_armed)
    then show ?thesis
      using a by (simp add: e f kept_or_flushed_def)
  next
    assume a: "buffer (u_push ?e st) = [] \<and>
          chunks (u_push ?e st) = (if open_stream st then chunks st @ [buffer st @ [?e]] else chunks st) \<and>
          \<not> (timerId (u_push ?e st) \<and> lastArgs (u_push ?e st))"
    then have "\<not> (timerId ?st1 \<and> lastArgs ?st1)" by simp
    then have "buffer (close ?st1) = buffer ?st1 \<and> chunks (close ?st1) = chunks ?st1"
      by (rule close_disarmed)
    then show ?thesis
      using a by (simp add: e f kept_or_flushed_def)
  qed
qed

lemma exec_kept_or_flushed:
  assumes "bounded st" and "exec rt c st = Inr st'"
  shows "kept_or_flushed (staged rt c (buffer st)) st st'"
proof (cases c)
  case (Add x)
  with assms show ?thesis using u_push_kept_or_flushed [of st "add_entry x"] by (auto simp: add_def)
next
  case (Remove s)
  with assms show ?thesis using remove_kept_or_flushed [of rt s st st'] by simp
next
  case (Update s ch)
  with assms show ?thesis using update_kept_or_flushed [of rt s ch st st'] by simp
next
  case Ready
  with assms show ?thesis using u_push_kept_or_flushed [of st ready_entry] by (auto simp: ready_def)
next
  case (Custom d)
  with assms show ?thesis using u_push_kept_or_flushed [of st d] by (auto simp: custom_def)
next
  case (Props p)
  with assms show ?thesis
    using u_push_kept_or_flushed [of st "JArr [JStr ''props'', p]"] by (auto simp: props_def)
next
  case (Error m cl p)
  with assms show ?thesis using error_kept_or_flushed [of st m p cl] by auto
next
  case Close
  with assms show ?thesis using close_kept_or_flushed [of st] by auto
next
  case TimerExpired
  with assms show ?thesis using timerExpired_kept_or_flushed [of st] by auto
next
  case Destroy
  with assms show ?thesis by (auto simp: destroy_def kept_or_flushed_def)
qed

section \<open>The state of the stream does not steer the calls\<close>

lemma shouldInvoke_stream:
  "shouldInvoke t (st\<lparr>chunks := a\<rparr>) = shouldInvoke t st"
  "shouldInvoke t (st\<lparr>ended := b\<rparr>) = shouldInvoke t st"
  "shouldInvoke t (st\<lparr>destroyed := c\<rparr>) = shouldInvoke t st"
  "shouldInvoke t (st\<lparr>errored := d\<rparr>) = shouldInvoke t st"
  "shouldInvoke t (st\<lparr>timeouts := n\<rparr>) = shouldInvoke t st"
  "shouldInvoke t (st\<lparr>timerId := ti\<rparr>) = shouldInvoke t st"
  "shouldInvoke t (st\<lparr>lastArgs := la\<rparr>) = shouldInvoke t st"
  by (simp_all add: shouldInvoke_def split: option.splits)

lemmas queue_simps = queue_def Readable_push_def Readable_push_null_def errorOrDestroy_def
  shouldInvoke_stream shouldInvoke_ticks shouldInvoke_buffer

lemma queue_processBuffer: "queue (processBuffer st) = queue (processBuffer (queue st))"
  unfolding processBuffer_def now_def Let_def prod.case leadingEdge_def setTimeout_def
    clearTimeout_def invokeFunc_def processBuffer_func_def
  by (simp add: queue_simps)

lemma queue_flush: "queue (processBuffer_flush st) = queue (processBuffer_flush (queue st))"
  unfolding processBuffer_flush_def now_def Let_def prod.case trailingEdge_def invokeFunc_def
    processBuffer_func_def
  by (simp add: queue_simps)

lemma queue_timerExpired: "queue (timerExpired st) = queue (timerExpired (queue st))"
  unfolding timerExpired_def now_def Let_def prod.case trailingEdge_def setTimeout_def
    invokeFunc_def processBuffer_func_def
  by (simp add: queue_simps)

lemma queue_buffer_update: "queue (st\<lparr>buffer := b\<rparr>) = (queue st)\<lparr>buffer := b\<rparr>"
  by (simp add: queue_def)

lemma buffer_queue: "buffer (queue st) = buffer st"
  by (simp add: queue_def)

lemma queue_u_push: "queue (u_push rec st) = queue (u_push rec (queue st))"
proof -
  let ?st1 = "st\<lparr>buffer := buffer st @ [rec]\<rparr>"
  have q: "(queue st)\<lparr>buffer := buffer (queue st) @ [rec]\<rparr> = queue ?st1"
    by (simp add: queue_def)
  show ?thesis
    using queue_processBuffer [of ?st1] queue_flush [of ?st1]
    by (simp add: u_push_def Let_def q) (simp add: queue_def)
qed

lemma queue_close: "queue (close st) = queue (close (queue st))"
proof -
  have n: "queue (Readable_push_null x) = queue x" for x
    by (simp add: queue_def Readable_push_null_def)
  show ?thesis
    using queue_flush [of st] by (simp add: close_def n)
qed

lemma queue_error: "queue (error msg cl p st) = queue (error msg cl p (queue st))"
proof -
  let ?e = "JArr [JStr ''error'', msg, p]"
  have l: "queue (x\<lparr>lastError := msg\<rparr>) = (queue x)\<lparr>lastError := msg\<rparr>" for x
    by (simp add: queue_def)
  have a: "queue ((u_push ?e st)\<lparr>lastError := msg\<rparr>) =
      queue ((u_push ?e (queue st))\<lparr>lastError := msg\<rparr>)"
    using queue_u_push [of ?e st] by (simp add: l)
  show ?thesis
  proof (cases cl)
    case False
    then show ?thesis using a by (simp add: error_def Let_def)
  next
    case True
    have "queue (close ((u_push ?e st)\<lparr>lastError := msg\<rparr>)) =
        queue (close (queue ((u_push ?e st)\<lparr>lastError := msg\<rparr>)))"
      by (rule queue_close)
    also have "\<dots> = queue (close (queue ((u_push ?e (queue st))\<lparr>lastError := msg\<rparr>)))"
      by (simp only: a)
    also have "\<dots> = queue (close ((u_push ?e (queue st))\<lparr>lastError := msg\<rparr>))"
      by (rule queue_close [symmetric])
    finally show ?thesis using True by (simp add: error_def Let_def)
  qed
qed

lemma queue_remove:
  "map_sum id queue (remove rt s st) = map_sum id queue (remove rt s (queue st))"
proof -
  have b: "buffer (queue st) = buffer st" by (rule buffer_queue)
  have u: "queue (u_push r (st\<lparr>buffer := x\<rparr>)) = queue (u_push r ((queue st)\<lparr>buffer := x\<rparr>))" for r x
    using queue_u_push [of r "st\<lparr>buffer := x\<rparr>"] by (simp add: queue_buffer_update)
  have i: "queue (queue st) = queue st" by (simp add: queue_def)
  show ?thesis
    using queue_u_push [of "remove_entry s" st] u
    by (auto simp: remove_def Let_def b i queue_buffer_update split: sum.splits option.splits)
qed

lemma queue_update:
  "map_sum id queue (update rt s c st) = map_sum id queue (update rt s c (queue st))"
proof -
  have b: "buffer (queue st) = buffer st" by (rule buffer_queue)
  have i: "queue (queue st) = queue st" by (simp add: queue_def)
  show ?thesis
    using queue_u_push [of "update_entry s c" st]
    by (auto simp: update_def Let_def b i queue_buffer_update split: sum.splits option.splits)
qed

lemma queue_exec: "queue_after rt c st = queue_after rt c (queue st)"
proof (cases c)
  case (Add x)
  then show ?thesis using queue_u_push [of "add_entry x" st] by (simp add: queue_after_def add_def)
next
  case (Remove s)
  then show ?thesis using queue_remove [of rt s st] by (simp add: queue_after_def)
next
  case (Update s ch)
  then show ?thesis using queue_update [of rt s ch st] by (simp add: queue_after_def)
next
  case Ready
  then show ?thesis using queue_u_push [of ready_entry st] by (simp add: queue_after_def ready_def)
next
  case (Custom d)
  then show ?thesis using queue_u_push [of d st] by (simp add: queue_after_def custom_def)
next
  case (Props p)
  then show ?thesis
    using queue_u_push [of "JArr [JStr ''props'', p]" st] by (simp add: queue_after_def props_def)
next
  case (Error m cl p)
  then show ?thesis using queue_error [of m cl p st] by (simp add: queue_after_def)
next
  case Close
  then show ?thesis using queue_close [of st] by (simp add: queue_after_def)
next
  case TimerExpired
  then show ?thesis using queue_timerExpired [of st] by (simp add: queue_after_def)
next
  case Destroy
  then show ?thesis by (simp add: queue_after_def destroy_def queue_def)
qed

lemma exec_enqueue_exact:
  assumes "bounded st" and "entry_of c = Some e" and "exec rt c st = Inr st'"
  shows "buffer st' = (if flush_due st then [] else buffer st @ [e])"
proof -
  have "st' = u_push e st \<or> (\<exists>m. st' = (u_push e st)\<lparr>lastError := m\<rparr>)"
    using assms(2,3)
    by (cases c) (auto simp: add_def ready_def custom_def props_def error_def Let_def split: if_splits)
  then have "buffer st' = buffer (u_push e st)" by auto
  then show ?thesis using assms(1) by (simp add: u_push_buffer_exact)
qed

section \<open>Concrete runs\<close>

lemmas run_defs = add_def remove_def update_def ready_def custom_def props_def close_def error_def
  u_push_def processBuffer_def processBuffer_flush_def timerExpired_def trailingEdge_def
  leadingEdge_def setTimeout_def clearTimeout_def invokeFunc_def processBuffer_func_def
  shouldInvoke_def now_def
  Readable_push_def Readable_push_null_def errorOrDestroy_def destroy_def hard_limit_def
  opt_index_def splice1_def sample_runtime_def sample_matches_def buffer_after_def
  chunks_after_def ended_after_def new_SendListReadable_def no_options_def steady_clock_def
  ticking_clock_def
  slow_clock_def spec_1_def rec_1_def change_1_def rec_2_def spec_2_def spec_k_def

lemma fresh_simp:
  "fresh = \<lparr>buffer = [], lastError = JUndefined, wait = 200, timerId = False,
            lastArgs = False, lastCallTime = None, lastInvokeTime = 0, chunks = [],
            ended = False, destroyed = False, errored = False, timeouts = 0,
            clock = steady_clock, ticks = 0\<rparr>"
  by (simp add: fresh_def new_SendListReadable_def no_options_def)

lemma add_fresh: "add rec_1 fresh = filled (Suc 0)"
  unfolding add_def u_push_def Let_def processBuffer_def now_def prod.case leadingEdge_def
    setTimeout_def clearTimeout_def
    shouldInvoke_def fresh_simp filled_def
  by (simp add: hard_limit_def steady_clock_def)

lemma add_filled:
  assumes "0 < k" and "k < hard_limit"
  shows "add rec_1 (filled k) = filled (Suc k)"
proof -
  have "length (buffer (filled k) @ [add_entry rec_1]) \<le> hard_limit"
    using assms by (simp add: filled_def)
  then have "add rec_1 (filled k) =
      processBuffer ((filled k)\<lparr>buffer := buffer (filled k) @ [add_entry rec_1]\<rparr>)"
    by (simp add: add_def u_push_def Let_def)
  also have "\<dots> = filled (Suc k)"
    unfolding processBuffer_def now_def Let_def prod.case shouldInvoke_def filled_def
    by (simp add: steady_clock_def replicate_append_same)
  finally show ?thesis .
qed

lemma run_adds:
  "0 < k \<Longrightarrow> k + n \<le> hard_limit \<Longrightarrow>
   run rt (replicate n (Add rec_1)) (filled k) = Inr (filled (k + n))"
proof (induction n arbitrary: k)
  case 0
  then show ?case by simp
next
  case (Suc n)
  then have "add rec_1 (filled k) = filled (Suc k)" by (simp add: add_filled)
  moreover have "run rt (replicate n (Add rec_1)) (filled (Suc k)) = Inr (filled (Suc k + n))"
    using Suc.prems by (intro Suc.IH) simp_all
  ultimately show ?case by simp
qed

lemma run_fill:
  "run rt (replicate hard_limit (Add rec_1)) (new_SendListReadable steady_clock no_options) =
     Inr (filled hard_limit)"
proof -
  obtain m where m: "hard_limit = Suc m" by (simp add: hard_limit_def)
  have "run rt (replicate m (Add rec_1)) (filled (Suc 0)) = Inr (filled (Suc 0 + m))"
    by (rule run_adds) (simp_all add: m)
  then show ?thesis
    using add_fresh by (simp add: m fresh_def)
qed

section \<open>Claims about the list\<close>

text \<open>
  Claim C1, as amended. When no entry buffered before matches the search \<open>s\<close> and
  \<open>add(x)\<close> left its entry in the buffer (it did not flush), a following \<open>remove(s)\<close>
  with \<open>s\<close> matching \<open>x\<close> takes the Add entry out again and enqueues nothing: the state
  is the one after the add, with the buffer as it was before it.
\<close>

theorem add_then_remove_cancels:
  assumes "matches rt s x"
    and "findIndex rt s (buffer st) = Inr None"
    and "buffer (add x st) = buffer st @ [add_entry x]"
  shows "remove rt s (add x st) = Inr ((add x st)\<lparr>buffer := buffer st\<rparr>)"
proof -
  have "findIndex rt s (buffer (add x st)) = Inr (Some (length (buffer st)))"
    using assms by (simp add: findIndex_snoc_match)
  then show ?thesis
    using assms(3) by (simp add: remove_def opt_index_def splice1_snoc)
qed

theorem add_then_remove_cancels_witness:
  "matches sample_runtime spec_1 rec_1 \<and>
   findIndex sample_runtime spec_1 (buffer fresh) = Inr None \<and>
   buffer (add rec_1 fresh) = buffer fresh @ [add_entry rec_1] \<and>
   buffer_after sample_runtime [Add rec_1, Remove spec_1] fresh = Inr []"
proof -
  have m: "matches sample_runtime spec_1 rec_1"
    by (simp add: sample_runtime_def sample_matches_def spec_1_def rec_1_def)
  have f: "findIndex sample_runtime spec_1 (buffer fresh) = Inr None"
    by (simp add: fresh_simp)
  have b: "buffer (add rec_1 fresh) = buffer fresh @ [add_entry rec_1]"
    by (simp add: add_fresh filled_def) (simp add: fresh_simp)
  from add_then_remove_cancels [OF m f b]
  have "buffer_after sample_runtime [Add rec_1, Remove spec_1] fresh = Inr []"
    by (simp add: buffer_after_def fresh_simp)
  with m f b show ?thesis by simp
qed

text \<open>
  Claim C1 as stated fails on a list whose buffer already holds an entry matching \<open>s\<close>:
  after \<open>remove(s)\<close>, \<open>add(x)\<close>, \<open>remove(s)\<close> on a new list, with nothing flushed, the
  scan stops at the earlier Remove entry and the Add entry stays buffered.
\<close>

theorem add_then_remove_counterexample:
  "sample_matches spec_1 rec_1 \<and>
   buffer_after sample_runtime [Remove spec_1, Add rec_1] fresh =
     Inr [remove_entry spec_1, add_entry rec_1] \<and>
   buffer_after sample_runtime [Remove spec_1, Add rec_1, Remove spec_1] fresh =
     Inr [remove_entry spec_1, add_entry rec_1] \<and>
   chunks_after sample_runtime [Remove spec_1, Add rec_1, Remove spec_1] fresh = Inr []"
  by (simp add: fresh_simp run_defs Let_def)

text \<open>
  Claim C5, as amended. Take a list reached from the constructor by any sequence of
  calls (the public methods, a timeout running, the destruction of the stream) and one
  more call that returns. Before and after the call the buffer holds at most 10000
  entries. An enqueue on a buffer of exactly 10000 entries flushes at once: the buffer is
  empty afterwards, and an open stream has the 10001 entries as one more chunk. A call
  that ends with an enqueue leaves the buffer empty when the flush is due (the buffer at
  the hard limit, or a timeout pending with the buffer time elapsed) and the old entries
  followed by the new one otherwise. Whatever the call, the entries it leaves (its own
  edit of the buffer: the entry appended, the one entry \<open>remove\<close> takes out, the payload
  \<open>update\<close> assigns to) stay together: they are all in the buffer, or all flushed as one
  chunk, which an open stream receives and a stream that was ended, destroyed or put in
  error discards.
\<close>

theorem every_call_bounds_and_keeps_entries:
  assumes "run rt calls (new_SendListReadable clk opts) = Inr st"
    and "exec rt c st = Inr st'"
  shows "length (buffer st) \<le> 10000 \<and> length (buffer st') \<le> 10000 \<and>
         (length (buffer st) = 10000 \<longrightarrow>
            buffer (u_push rec st) = [] \<and>
            chunks (u_push rec st) =
              (if open_stream st then chunks st @ [buffer st @ [rec]] else chunks st)) \<and>
         (\<forall>e. entry_of c = Some e \<longrightarrow>
            buffer st' = (if flush_due st then [] else buffer st @ [e])) \<and>
         kept_or_flushed (staged rt c (buffer st)) st st'"
proof -
  have b: "bounded st" using assms(1) by (rule reachable_bounded)
  then have b': "bounded st'" using assms(2) by (rule exec_bounded)
  have 1: "length (buffer st) \<le> 10000" "length (buffer st') \<le> 10000"
    using b b' by (simp_all add: bounded_def hard_limit_def)
  have 2: "length (buffer st) = 10000 \<longrightarrow>
      buffer (u_push rec st) = [] \<and>
      chunks (u_push rec st) =
        (if open_stream st then chunks st @ [buffer st @ [rec]] else chunks st)"
    using b u_push_at_limit [of st rec]
    by (simp add: hard_limit_def chunks_Readable_push open_stream_def)
  have 3: "\<forall>e. entry_of c = Some e \<longrightarrow>
      buffer st' = (if flush_due st then [] else buffer st @ [e])"
    using b assms(2) exec_enqueue_exact [of st c _ rt st'] by blast
  have 4: "kept_or_flushed (staged rt c (buffer st)) st st'"
    using b assms(2) by (rule exec_kept_or_flushed)
  from 1 2 3 4 show ?thesis by simp
qed

theorem every_call_bounds_and_keeps_entries_witness:
  "run sample_runtime (replicate hard_limit (Add rec_1))
     (new_SendListReadable steady_clock no_options) = Inr (filled hard_limit) \<and>
   exec sample_runtime (Add rec_2) (filled hard_limit) = Inr (add rec_2 (filled hard_limit)) \<and>
   length (buffer (filled hard_limit)) = 10000 \<and>
   entry_of (Add rec_2) = Some (add_entry rec_2) \<and>
   flush_due (filled hard_limit) \<and> open_stream (filled hard_limit) \<and>
   buffer (u_push ready_entry (filled hard_limit)) = [] \<and>
   chunks (u_push ready_entry (filled hard_limit)) =
     [replicate hard_limit (add_entry rec_1) @ [ready_entry]] \<and>
   buffer (add rec_2 (filled hard_limit)) = [] \<and>
   chunks (add rec_2 (filled hard_limit)) =
     [replicate hard_limit (add_entry rec_1) @ [add_entry rec_2]]"
proof -
  have r: "run sample_runtime (replicate hard_limit (Add rec_1))
     (new_SendListReadable steady_clock no_options) = Inr (filled hard_limit)"
    by (rule run_fill)
  have x: "exec sample_runtime (Add rec_2) (filled hard_limit) =
      Inr (add rec_2 (filled hard_limit))"
    by simp
  have l: "length (buffer (filled hard_limit)) = 10000"
    by (simp add: filled_def) (simp add: hard_limit_def)
  have e: "entry_of (Add rec_2) = Some (add_entry rec_2)"
    by simp
  have f: "flush_due (filled hard_limit)"
    by (simp add: flush_due_def filled_def)
  have o: "open_stream (filled hard_limit)" "chunks (filled hard_limit) = []"
    "buffer (filled hard_limit) = replicate hard_limit (add_entry rec_1)"
    by (simp_all add: open_stream_def filled_def)
  note t = every_call_bounds_and_keeps_entries [OF r x, of ready_entry]
  from t l o have 1: "buffer (u_push ready_entry (filled hard_limit)) = []"
    "chunks (u_push ready_entry (filled hard_limit)) =
       [replicate hard_limit (add_entry rec_1) @ [ready_entry]]"
    by simp_all
  from t e f have 2: "buffer (add rec_2 (filled hard_limit)) = []"
    by simp
  from t have "kept_or_flushed (staged sample_runtime (Add rec_2) (buffer (filled hard_limit)))
      (filled hard_limit) (add rec_2 (filled hard_limit))"
    by simp
  with 2 o have 3: "chunks (add rec_2 (filled hard_limit)) =
      [replicate hard_limit (add_entry rec_1) @ [add_entry rec_2]]"
    by (simp add: kept_or_flushed_def)
  from r x l e f o(1) 1 2 3 show ?thesis by simp
qed

text \<open>
  Claim C5 as stated fails in its middle part. On a new list whose clock advances 200 ms
  per reading, \<open>close()\<close>, \<open>add(x)\<close> and the timeout: the flush empties the buffer and the
  ended stream discards the entry, which no chunk ever holds. On a new list, \<open>props(x)\<close>
  and \<open>remove(s)\<close> with \<open>s\<close> matching \<open>x\<close>: the Props entry is taken out of the buffer with
  nothing flushed.
\<close>

theorem entries_dropped_counterexample:
  "buffer_after sample_runtime [Close, Add rec_1]
     (new_SendListReadable slow_clock no_options) = Inr [add_entry rec_1] \<and>
   buffer_after sample_runtime [Close, Add rec_1, TimerExpired]
     (new_SendListReadable slow_clock no_options) = Inr [] \<and>
   chunks_after sample_runtime [Close, Add rec_1, TimerExpired]
     (new_SendListReadable slow_clock no_options) = Inr [] \<and>
   sample_matches spec_1 rec_1 \<and>
   buffer_after sample_runtime [Props rec_1] fresh = Inr [JArr [JStr ''props'', rec_1]] \<and>
   buffer_after sample_runtime [Props rec_1, Remove spec_1] fresh = Inr [remove_entry spec_1] \<and>
   chunks_after sample_runtime [Props rec_1, Remove spec_1] fresh = Inr []"
  by (simp add: fresh_simp run_defs Let_def)

text \<open>
  Claim C2, as amended. Let the change \<open>c\<close> be non-empty. When no entry buffered before
  matches \<open>s\<close> and \<open>add(x)\<close> left its entry in the buffer, a following \<open>update(s, c)\<close> with
  \<open>s\<close> matching the record \<open>x\<close> appends nothing and replaces the payload of that Add
  entry by \<open>x\<close> with the properties of \<open>c\<close> assigned to it; in the merged record a
  property of \<open>c\<close> has the value \<open>c\<close> gives it and every other property keeps the value
  of \<open>x\<close>. In general, when the first buffered entry matching \<open>s\<close> is an Add entry, or an
  Update entry, \<open>c\<close> is assigned to its record, or to its change.
\<close>

theorem update_merges_into_buffered_entry:
  assumes "\<not> isEmpty c"
  shows "(matches rt s (JObj fs) \<and> findIndex rt s (buffer st) = Inr None \<and>
          buffer (add (JObj fs) st) = buffer st @ [add_entry (JObj fs)] \<longrightarrow>
            update rt s c (add (JObj fs) st) =
              Inr ((add (JObj fs) st)
                \<lparr>buffer := buffer st @ [add_entry (JObj (assign_props fs (own_props c)))]\<rparr>)) \<and>
         (findIndex rt s (buffer st) = Inr (Some i) \<and> buffer st ! i = add_entry (JObj fs) \<longrightarrow>
            update rt s c st =
              Inr (st\<lparr>buffer :=
                (buffer st)[i := add_entry (JObj (assign_props fs (own_props c)))]\<rparr>)) \<and>
         (findIndex rt s (buffer st) = Inr (Some i) \<and> buffer st ! i = update_entry t (JObj fs) \<longrightarrow>
            update rt s c st =
              Inr (st\<lparr>buffer :=
                (buffer st)[i := update_entry t (JObj (assign_props fs (own_props c)))]\<rparr>)) \<and>
         map_of (assign_props fs (own_props c)) k =
           (case map_of (rev (own_props c)) k of None \<Rightarrow> map_of fs k | Some v \<Rightarrow> Some v)"
proof -
  have "update rt s c (add (JObj fs) st) =
      Inr ((add (JObj fs) st)
        \<lparr>buffer := buffer st @ [add_entry (JObj (assign_props fs (own_props c)))]\<rparr>)"
    if m: "matches rt s (JObj fs)" and n: "findIndex rt s (buffer st) = Inr None"
      and b: "buffer (add (JObj fs) st) = buffer st @ [add_entry (JObj fs)]"
  proof -
    have f: "findIndex rt s (buffer (add (JObj fs) st)) = Inr (Some (length (buffer st)))"
      using m n b by (simp add: findIndex_snoc_match)
    have e: "buffer (add (JObj fs) st) ! length (buffer st) = add_entry (JObj fs)"
      using b by simp
    show ?thesis
      using update_first_add [OF assms f e] b by simp
  qed
  then show ?thesis
    using assms by (simp add: update_first_add update_first_update map_of_assign_props)
qed

theorem update_merges_into_buffered_entry_witness:
  "\<not> isEmpty change_1 \<and> matches sample_runtime spec_1 rec_1 \<and>
   findIndex sample_runtime spec_1 (buffer fresh) = Inr None \<and>
   buffer (add rec_1 fresh) = buffer fresh @ [add_entry rec_1] \<and>
   buffer_after sample_runtime [Add rec_1, Update spec_1 change_1] fresh =
     Inr [add_entry (JObj [(''id'', JNum 1), (''name'', JStr ''b'')])] \<and>
   findIndex sample_runtime spec_1 (buffer (filled (Suc 0))) = Inr (Some 0) \<and>
   buffer (filled (Suc 0)) ! 0 = add_entry rec_1 \<and>
   buffer_after sample_runtime [Update spec_1 change_1] (filled (Suc 0)) =
     Inr [add_entry (JObj [(''id'', JNum 1), (''name'', JStr ''b'')])] \<and>
   buffer_after sample_runtime
     [Update spec_1 change_1, Update spec_1 (JObj [(''size'', JNum 7)])] fresh =
     Inr [update_entry spec_1 (JObj [(''name'', JStr ''b''), (''size'', JNum 7)])]"
proof -
  have e: "\<not> isEmpty change_1" "\<not> isEmpty (JObj [(''size'', JNum 7)])"
    by (simp_all add: change_1_def)
  have m: "matches sample_runtime spec_1 rec_1"
    by (simp add: sample_runtime_def sample_matches_def spec_1_def rec_1_def)
  have f: "findIndex sample_runtime spec_1 (buffer fresh) = Inr None"
    by (simp add: fresh_simp)
  have b: "buffer (add rec_1 fresh) = buffer fresh @ [add_entry rec_1]"
    by (simp add: add_fresh filled_def) (simp add: fresh_simp)
  have a: "rec_1 = JObj [(''id'', JNum 1), (''name'', JStr ''a'')]"
    by (simp add: rec_1_def)
  have 1: "buffer_after sample_runtime [Add rec_1, Update spec_1 change_1] fresh =
     Inr [add_entry (JObj [(''id'', JNum 1), (''name'', JStr ''b'')])]"
    using update_merges_into_buffered_entry [OF e(1), of sample_runtime spec_1
        "[(''id'', JNum 1), (''name'', JStr ''a'')]" fresh] m f b
    by (simp add: buffer_after_def a [symmetric])
      (simp add: fresh_simp change_1_def assign_props_def set_prop_def)
  let ?st = "u_push (update_entry spec_1 change_1) fresh"
  have u: "update sample_runtime spec_1 change_1 fresh = Inr ?st"
    by (simp add: update_def change_1_def fresh_simp)
  have bu: "buffer ?st = [update_entry spec_1 (JObj [(''name'', JStr ''b'')])]"
    by (simp add: fresh_simp run_defs Let_def)
  have fu: "findIndex sample_runtime spec_1 (buffer ?st) = Inr (Some 0)"
    by (simp add: bu) (simp add: sample_runtime_def sample_matches_def spec_1_def)
  have 2: "buffer_after sample_runtime
     [Update spec_1 change_1, Update spec_1 (JObj [(''size'', JNum 7)])] fresh =
     Inr [update_entry spec_1 (JObj [(''name'', JStr ''b''), (''size'', JNum 7)])]"
    using update_merges_into_buffered_entry [OF e(2), of sample_runtime spec_1
        "[(''name'', JStr ''b'')]" ?st 0 spec_1] fu bu u
    by (simp add: buffer_after_def assign_props_def set_prop_def)
  have bf: "buffer (filled (Suc 0)) = [add_entry rec_1]"
    by (simp add: filled_def)
  have ff: "findIndex sample_runtime spec_1 (buffer (filled (Suc 0))) = Inr (Some 0)"
    using m by (simp add: bf)
  have ef: "buffer (filled (Suc 0)) ! 0 = add_entry rec_1"
    by (simp add: bf)
  have 3: "buffer_after sample_runtime [Update spec_1 change_1] (filled (Suc 0)) =
     Inr [add_entry (JObj [(''id'', JNum 1), (''name'', JStr ''b'')])]"
    using update_merges_into_buffered_entry [OF e(1), of sample_runtime spec_1
        "[(''id'', JNum 1), (''name'', JStr ''a'')]" "filled (Suc 0)" 0] ff ef
    by (simp add: buffer_after_def a [symmetric])
      (simp add: bf change_1_def assign_props_def set_prop_def)
  from e m f b 1 2 3 ff ef show ?thesis by simp
qed

text \<open>
  Claim C2 as stated fails on a list whose buffer already holds an entry matching \<open>s\<close>:
  after \<open>remove(s)\<close>, \<open>add(x)\<close>, \<open>update(s, c)\<close> on a new list, with nothing flushed, the
  scan stops at the earlier Remove entry and the Add entry keeps the record \<open>x\<close> unmerged.
\<close>

theorem update_merges_counterexample:
  "sample_matches spec_1 rec_1 \<and> \<not> isEmpty change_1 \<and>
   buffer_after sample_runtime [Remove spec_1, Add rec_1] fresh =
     Inr [remove_entry spec_1, add_entry rec_1] \<and>
   buffer_after sample_runtime [Remove spec_1, Add rec_1, Update spec_1 change_1] fresh =
     Inr [remove_entry spec_1, add_entry rec_1] \<and>
   chunks_after sample_runtime [Remove spec_1, Add rec_1, Update spec_1 change_1] fresh = Inr []"
  by (simp add: fresh_simp run_defs Let_def)

text \<open>
  Claim C3, as amended. When the first buffered entry matching \<open>s\<close> is an Update entry,
  \<open>remove(s)\<close> takes that entry out of the buffer and enqueues a Remove entry for \<open>s\<close>:
  the remaining entries followed by the Remove entry are the new buffer, or were pushed
  to the stream as one chunk.
\<close>

theorem remove_discards_buffered_update:
  assumes "findIndex rt s (buffer st) = Inr (Some i)"
    and "buffer st ! i = update_entry t c"
  shows "\<exists>st'. remove rt s st = Inr st' \<and>
           handed_over (splice1 i (buffer st) @ [remove_entry s]) st st'"
  using assms by (rule remove_first_update)

theorem remove_discards_buffered_update_witness:
  "findIndex sample_runtime spec_1 (buffer (u_push (update_entry spec_1 change_1) fresh)) =
     Inr (Some 0) \<and>
   buffer (u_push (update_entry spec_1 change_1) fresh) ! 0 = update_entry spec_1 change_1 \<and>
   (\<exists>st'. remove sample_runtime spec_1 (u_push (update_entry spec_1 change_1) fresh) = Inr st' \<and>
      handed_over [remove_entry spec_1] (u_push (update_entry spec_1 change_1) fresh) st') \<and>
   buffer_after sample_runtime [Update spec_1 change_1, Remove spec_1] fresh =
     Inr [remove_entry spec_1]"
proof -
  let ?st = "u_push (update_entry spec_1 change_1) fresh"
  have bu: "buffer ?st = [update_entry spec_1 change_1]"
    by (simp add: fresh_simp run_defs Let_def)
  have fu: "findIndex sample_runtime spec_1 (buffer ?st) = Inr (Some 0)"
    by (simp add: bu) (simp add: sample_runtime_def sample_matches_def spec_1_def)
  have e: "buffer ?st ! 0 = update_entry spec_1 change_1"
    by (simp add: bu)
  have "\<exists>st'. remove sample_runtime spec_1 ?st = Inr st' \<and>
      handed_over (splice1 0 (buffer ?st) @ [remove_entry spec_1]) ?st st'"
    using fu e by (rule remove_discards_buffered_update)
  then have h: "\<exists>st'. remove sample_runtime spec_1 ?st = Inr st' \<and>
      handed_over [remove_entry spec_1] ?st st'"
    by (simp add: bu splice1_def)
  have "buffer_after sample_runtime [Update spec_1 change_1, Remove spec_1] fresh =
     Inr [remove_entry spec_1]"
    by (simp add: fresh_simp run_defs Let_def)
  with fu e h show ?thesis by simp
qed

text \<open>
  Claim C3 as stated fails when an entry buffered before the Update entry matches \<open>s\<close>
  too: after \<open>add(x)\<close>, \<open>update(t, c)\<close>, \<open>remove(s)\<close> on a new list, where \<open>s\<close> matches both
  \<open>x\<close> and \<open>t\<close> and \<open>t\<close> does not match \<open>x\<close>, the scan stops at the Add entry; the Update
  entry stays buffered and no Remove entry is enqueued.
\<close>

theorem remove_discards_update_counterexample:
  "sample_matches spec_k spec_2 \<and> sample_matches spec_k rec_2 \<and> \<not> sample_matches spec_2 rec_2 \<and>
   buffer_after sample_runtime [Add rec_2, Update spec_2 change_1] fresh =
     Inr [add_entry rec_2, update_entry spec_2 change_1] \<and>
   buffer_after sample_runtime [Add rec_2, Update spec_2 change_1, Remove spec_k] fresh =
     Inr [update_entry spec_2 change_1] \<and>
   chunks_after sample_runtime [Add rec_2, Update spec_2 change_1, Remove spec_k] fresh = Inr []"
  by (simp add: fresh_simp run_defs Let_def)

text \<open>
  Claim C4, as amended. When the first buffered entry matching \<open>s\<close> is a Remove entry,
  \<open>remove(s)\<close> changes nothing; so it is when the buffer ends with a Remove entry whose
  spec matches \<open>s\<close> and no entry before it matches. The list keeps no record of what it
  flushed: when no buffered entry matches \<open>s\<close>, as on the empty buffer left by a flush,
  \<open>remove(s)\<close> enqueues a Remove entry.
\<close>

theorem repeated_remove:
  shows "(findIndex rt s (buffer st) = Inr (Some i) \<and> buffer st ! i = remove_entry t \<longrightarrow>
            remove rt s st = Inr st) \<and>
         (findIndex rt s b = Inr None \<and> matches rt s t \<and> buffer st = b @ [remove_entry t] \<longrightarrow>
            remove rt s st = Inr st) \<and>
         (findIndex rt s (buffer st) = Inr None \<longrightarrow>
            (\<exists>st'. remove rt s st = Inr st' \<and>
               handed_over (buffer st @ [remove_entry s]) st st'))"
proof -
  have 1: "remove rt s st = Inr st"
    if "findIndex rt s (buffer st) = Inr (Some i)" and "buffer st ! i = remove_entry t" for i
    using that by (simp add: remove_def opt_index_def)
  have 2: "remove rt s st = Inr st"
    if n: "findIndex rt s b = Inr None" and m: "matches rt s t"
      and b: "buffer st = b @ [remove_entry t]"
  proof -
    have "findIndex rt s (buffer st) = Inr (Some (length b))"
      using n m b by (simp add: findIndex_snoc_match)
    moreover have "buffer st ! length b = remove_entry t"
      using b by simp
    ultimately show ?thesis by (rule 1)
  qed
  show ?thesis
    using 1 [of i] 2 by (simp add: remove_no_match)
qed

theorem repeated_remove_witness:
  "findIndex sample_runtime spec_1 (buffer fresh) = Inr None \<and>
   matches sample_runtime spec_1 spec_1 \<and>
   buffer (u_push (remove_entry spec_1) fresh) = buffer fresh @ [remove_entry spec_1] \<and>
   findIndex sample_runtime spec_1 (buffer (u_push (remove_entry spec_1) fresh)) = Inr (Some 0) \<and>
   buffer (u_push (remove_entry spec_1) fresh) ! 0 = remove_entry spec_1 \<and>
   (\<exists>st'. remove sample_runtime spec_1 fresh = Inr st' \<and>
      handed_over [remove_entry spec_1] fresh st') \<and>
   buffer_after sample_runtime [Remove spec_1] fresh = Inr [remove_entry spec_1] \<and>
   buffer_after sample_runtime [Remove spec_1, Remove spec_1] fresh = Inr [remove_entry spec_1]"
proof -
  let ?st = "u_push (remove_entry spec_1) fresh"
  have n: "findIndex sample_runtime spec_1 (buffer fresh) = Inr None"
    by (simp add: fresh_simp)
  have m: "matches sample_runtime spec_1 spec_1"
    by (simp add: sample_runtime_def sample_matches_def spec_1_def)
  have r: "remove sample_runtime spec_1 fresh = Inr ?st"
    by (simp add: remove_def fresh_simp)
  have b: "buffer ?st = buffer fresh @ [remove_entry spec_1]"
    by (simp add: fresh_simp run_defs Let_def)
  have b0: "buffer fresh = []"
    by (simp add: fresh_simp)
  have f: "findIndex sample_runtime spec_1 (buffer ?st) = Inr (Some 0)"
    using m by (simp add: b b0)
  have e: "buffer ?st ! 0 = remove_entry spec_1"
    by (simp add: b b0)
  from repeated_remove [of sample_runtime spec_1 ?st 0 spec_1 "buffer fresh"] f e
  have 1: "remove sample_runtime spec_1 ?st = Inr ?st" by simp
  from repeated_remove [of sample_runtime spec_1 ?st 0 spec_1 "buffer fresh"] n m b
  have 2: "remove sample_runtime spec_1 ?st = Inr ?st" by simp
  from repeated_remove [of sample_runtime spec_1 fresh 0 spec_1 "[]"] n
  have 3: "\<exists>st'. remove sample_runtime spec_1 fresh = Inr st' \<and>
      handed_over [remove_entry spec_1] fresh st'"
    by (simp add: b0)
  have 4: "buffer_after sample_runtime [Remove spec_1, Remove spec_1] fresh =
      Inr [remove_entry spec_1]"
    using r 2 b b0 by (simp add: buffer_after_def)
  have 5: "buffer_after sample_runtime [Remove spec_1] fresh = Inr [remove_entry spec_1]"
    using r b b0 by (simp add: buffer_after_def)
  from n m b f e 3 4 5 show ?thesis by simp
qed

text \<open>
  Claim C4 as stated fails for a Remove that was flushed: on a new list whose clock
  advances 200 ms per reading, \<open>remove(s)\<close> is flushed by the timeout, and a second
  \<open>remove(s)\<close> enqueues a Remove entry again.
\<close>

theorem repeated_remove_counterexample:
  "buffer_after sample_runtime [Remove spec_1, TimerExpired]
     (new_SendListReadable slow_clock no_options) = Inr [] \<and>
   chunks_after sample_runtime [Remove spec_1, TimerExpired]
     (new_SendListReadable slow_clock no_options) = Inr [[remove_entry spec_1]] \<and>
   buffer_after sample_runtime [Remove spec_1, TimerExpired, Remove spec_1]
     (new_SendListReadable slow_clock no_options) = Inr [remove_entry spec_1]"
  by (simp add: run_defs Let_def)

text \<open>
  Claim C10, as amended. When the first buffered entry matching \<open>s\<close> is a Remove
  entry, \<open>update(s, c)\<close> changes nothing, whatever the change \<open>c\<close>; so it is when the
  buffer ends with a Remove entry whose spec matches \<open>s\<close> and no entry before it matches.
\<close>

theorem update_after_buffered_remove:
  shows "(findIndex rt s (buffer st) = Inr (Some i) \<and> buffer st ! i = remove_entry t \<longrightarrow>
            update rt s c st = Inr st) \<and>
         (findIndex rt s b = Inr None \<and> matches rt s t \<and> buffer st = b @ [remove_entry t] \<longrightarrow>
            update rt s c st = Inr st)"
proof -
  have 1: "update rt s c st = Inr st"
    if "findIndex rt s (buffer st) = Inr (Some i)" and "buffer st ! i = remove_entry t" for i
    using that by (simp add: update_def opt_index_def)
  have 2: "update rt s c st = Inr st"
    if n: "findIndex rt s b = Inr None" and m: "matches rt s t"
      and b: "buffer st = b @ [remove_entry t]"
  proof -
    have "findIndex rt s (buffer st) = Inr (Some (length b))"
      using n m b by (simp add: findIndex_snoc_match)
    moreover have "buffer st ! length b = remove_entry t"
      using b by simp
    ultimately show ?thesis by (rule 1)
  qed
  show ?thesis
    using 1 [of i] 2 by simp
qed

theorem update_after_buffered_remove_witness:
  "findIndex sample_runtime spec_1 (buffer fresh) = Inr None \<and>
   matches sample_runtime spec_1 spec_1 \<and>
   buffer (u_push (remove_entry spec_1) fresh) = buffer fresh @ [remove_entry spec_1] \<and>
   findIndex sample_runtime spec_1 (buffer (u_push (remove_entry spec_1) fresh)) = Inr (Some 0) \<and>
   buffer (u_push (remove_entry spec_1) fresh) ! 0 = remove_entry spec_1 \<and>
   buffer_after sample_runtime [Remove spec_1] fresh = Inr [remove_entry spec_1] \<and>
   buffer_after sample_runtime [Remove spec_1, Update spec_1 change_1] fresh =
     Inr [remove_entry spec_1]"
proof -
  let ?st = "u_push (remove_entry spec_1) fresh"
  have n: "findIndex sample_runtime spec_1 (buffer fresh) = Inr None"
    by (simp add: fresh_simp)
  have m: "matches sample_runtime spec_1 spec_1"
    by (simp add: sample_runtime_def sample_matches_def spec_1_def)
  have r: "remove sample_runtime spec_1 fresh = Inr ?st"
    by (simp add: remove_def fresh_simp)
  have b: "buffer ?st = buffer fresh @ [remove_entry spec_1]"
    by (simp add: fresh_simp run_defs Let_def)
  have b0: "buffer fresh = []"
    by (simp add: fresh_simp)
  have f: "findIndex sample_runtime spec_1 (buffer ?st) = Inr (Some 0)"
    using m by (simp add: b b0)
  have e: "buffer ?st ! 0 = remove_entry spec_1"
    by (simp add: b b0)
  from update_after_buffered_remove [of sample_runtime spec_1 ?st 0 spec_1 change_1 "buffer fresh"] f e
  have 1: "update sample_runtime spec_1 change_1 ?st = Inr ?st" by simp
  from update_after_buffered_remove [of sample_runtime spec_1 ?st 0 spec_1 change_1 "buffer fresh"] n m b
  have 2: "update sample_runtime spec_1 change_1 ?st = Inr ?st" by simp
  have 3: "buffer_after sample_runtime [Remove spec_1, Update spec_1 change_1] fresh =
      Inr [remove_entry spec_1]"
    using r 2 b b0 by (simp add: buffer_after_def)
  have 4: "buffer_after sample_runtime [Remove spec_1] fresh = Inr [remove_entry spec_1]"
    using r b b0 by (simp add: buffer_after_def)
  from n m b f e 3 4 show ?thesis by simp
qed

text \<open>
  Claim C10 as stated fails when an entry buffered before the Remove entry matches \<open>s\<close>
  too: after \<open>add(x)\<close>, \<open>remove(t)\<close>, \<open>update(s, c)\<close> on a new list, where \<open>s\<close> matches both
  \<open>x\<close> and \<open>t\<close> and \<open>t\<close> does not match \<open>x\<close>, the change is assigned to the Add entry.
\<close>

theorem update_after_remove_counterexample:
  "sample_matches spec_k spec_2 \<and> sample_matches spec_k rec_2 \<and> \<not> sample_matches spec_2 rec_2 \<and>
   \<not> isEmpty change_1 \<and>
   buffer_after sample_runtime [Add rec_2, Remove spec_2] fresh =
     Inr [add_entry rec_2, remove_entry spec_2] \<and>
   buffer_after sample_runtime [Add rec_2, Remove spec_2, Update spec_k change_1] fresh =
     Inr [add_entry (JObj [(''id'', JNum 1), (''k'', JNum 1), (''name'', JStr ''b'')]),
          remove_entry spec_2]"
  by (simp add: fresh_simp run_defs Let_def assign_props_def set_prop_def)

text \<open>
  Claim C6, as amended. On every list reached from the constructor, \<open>close()\<close> leaves
  the buffer empty and the stream ended, and on a stream that was open with entries
  pending, those entries were pushed as one last chunk, before the end. After the end no
  call is refused. A call on the ended list leaves the stream ended with the chunks it
  had, and the buffer holding the entries the call leaves (its own edit of the buffer),
  or empty when the call flushed; a call that ends with an enqueue leaves the old entries
  followed by the new one, and the empty buffer exactly when the flush is due. What any
  call does to the buffer, the last error and the state of the debounced function is what
  it does on the same list with an open stream.
\<close>

theorem close_flushes_then_ends:
  assumes "run rt calls (new_SendListReadable clk opts) = Inr st"
  shows "buffer (close st) = [] \<and> ended (close st) \<and>
     (\<not> ended st \<and> \<not> destroyed st \<and> \<not> errored st \<and> buffer st \<noteq> [] \<longrightarrow>
        chunks (close st) = chunks st @ [buffer st]) \<and>
     (ended st \<and> exec rt c st = Inr st' \<longrightarrow>
        ended st' \<and> chunks st' = chunks st \<and>
        (buffer st' = staged rt c (buffer st) \<or> buffer st' = []) \<and>
        (\<forall>e. entry_of c = Some e \<longrightarrow>
           buffer st' = (if flush_due st then [] else buffer st @ [e]))) \<and>
     queue_after rt c st = queue_after rt c (queue st)"
proof -
  have b: "bounded st" using assms by (rule reachable_bounded)
  have 1: "buffer (close st) = [] \<and> ended (close st) \<and>
     (\<not> ended st \<and> \<not> destroyed st \<and> \<not> errored st \<and> buffer st \<noteq> [] \<longrightarrow>
        chunks (close st) = chunks st @ [buffer st])"
    using b by (rule close_bounded_result)
  have 2: "ended st' \<and> chunks st' = chunks st \<and>
        (buffer st' = staged rt c (buffer st) \<or> buffer st' = []) \<and>
        (\<forall>e. entry_of c = Some e \<longrightarrow>
           buffer st' = (if flush_due st then [] else buffer st @ [e]))"
    if e: "ended st" and x: "exec rt c st = Inr st'"
  proof -
    have "ended st' \<and> chunks st' = chunks st" using e x by (rule exec_ended)
    moreover have "kept_or_flushed (staged rt c (buffer st)) st st'"
      using b x by (rule exec_kept_or_flushed)
    then have "buffer st' = staged rt c (buffer st) \<or> buffer st' = []"
      by (auto simp: kept_or_flushed_def)
    moreover have "\<forall>e. entry_of c = Some e \<longrightarrow>
        buffer st' = (if flush_due st then [] else buffer st @ [e])"
      using b x exec_enqueue_exact [of st c _ rt st'] by blast
    ultimately show ?thesis by simp
  qed
  show ?thesis
    using 1 2 queue_exec [of rt c st] by blast
qed

theorem close_flushes_then_ends_witness:
  "run sample_runtime [Add rec_1] fresh = Inr (filled (Suc 0)) \<and>
   \<not> ended (filled (Suc 0)) \<and> \<not> destroyed (filled (Suc 0)) \<and> \<not> errored (filled (Suc 0)) \<and>
   buffer (filled (Suc 0)) \<noteq> [] \<and>
   buffer (close (filled (Suc 0))) = [] \<and> ended (close (filled (Suc 0))) \<and>
   chunks (close (filled (Suc 0))) = [[add_entry rec_1]] \<and>
   run sample_runtime [Add rec_1, Close] fresh = Inr (close (filled (Suc 0))) \<and>
   exec sample_runtime (Add rec_2) (close (filled (Suc 0))) =
     Inr (add rec_2 (close (filled (Suc 0)))) \<and>
   entry_of (Add rec_2) = Some (add_entry rec_2) \<and>
   \<not> flush_due (close (filled (Suc 0))) \<and>
   ended (add rec_2 (close (filled (Suc 0)))) \<and>
   chunks (add rec_2 (close (filled (Suc 0)))) = [[add_entry rec_1]] \<and>
   buffer (add rec_2 (close (filled (Suc 0)))) = [add_entry rec_2]"
proof -
  have r: "run sample_runtime [Add rec_1] (new_SendListReadable steady_clock no_options) =
      Inr (filled (Suc 0))"
    using add_fresh by (simp add: fresh_def)
  have r2: "run sample_runtime [Add rec_1, Close] (new_SendListReadable steady_clock no_options) =
      Inr (close (filled (Suc 0)))"
    using add_fresh by (simp add: fresh_def)
  have o: "\<not> ended (filled (Suc 0))" "\<not> destroyed (filled (Suc 0))"
    "\<not> errored (filled (Suc 0))" "buffer (filled (Suc 0)) \<noteq> []"
    "chunks (filled (Suc 0)) = []" "buffer (filled (Suc 0)) = [add_entry rec_1]"
    by (simp_all add: filled_def)
  have e: "exec sample_runtime (Add rec_2) (close (filled (Suc 0))) =
     Inr (add rec_2 (close (filled (Suc 0))))"
    by simp
  have n: "entry_of (Add rec_2) = Some (add_entry rec_2)"
    by simp
  from close_flushes_then_ends [OF r] o
  have 1: "buffer (close (filled (Suc 0))) = []" "ended (close (filled (Suc 0)))"
    "chunks (close (filled (Suc 0))) = [[add_entry rec_1]]"
    by simp_all
  have "\<not> timerId (close (filled (Suc 0)))"
    unfolding close_def processBuffer_flush_def now_def Let_def prod.case trailingEdge_def
      invokeFunc_def processBuffer_func_def Readable_push_null_def Readable_push_def
      errorOrDestroy_def filled_def
    by simp
  then have f: "\<not> flush_due (close (filled (Suc 0)))"
    using 1(1) by (simp add: flush_due_def hard_limit_def)
  from close_flushes_then_ends [OF r2, of "Add rec_2" "add rec_2 (close (filled (Suc 0)))"] 1 e n f
  have 2: "ended (add rec_2 (close (filled (Suc 0))))"
    "chunks (add rec_2 (close (filled (Suc 0)))) = [[add_entry rec_1]]"
    "buffer (add rec_2 (close (filled (Suc 0)))) = [add_entry rec_2]"
    by simp_all
  from r r2 o e n f 1 2 show ?thesis by (simp add: fresh_def)
qed

text \<open>
  Claim C6 as stated fails in its second part: on a new list, \<open>close()\<close> followed by
  \<open>add(x)\<close> leaves the Add entry pending in the buffer of the ended stream.
\<close>

theorem closed_list_accepts_counterexample:
  "ended_after sample_runtime [Close] fresh = Inr True \<and>
   buffer_after sample_runtime [Close] fresh = Inr [] \<and>
   ended_after sample_runtime [Close, Add rec_1] fresh = Inr True \<and>
   buffer_after sample_runtime [Close, Add rec_1] fresh = Inr [add_entry rec_1]"
  by (simp add: fresh_simp run_defs Let_def)

text \<open>
  Claim C9, as amended. Let the three clock readings of the constructor be
  non-decreasing and less than the buffer time apart (the buffer time is 200 when none
  or 0 is given). Then a list constructed with \<open>addAtStart = [a, b]\<close> holds the Add
  entry of \<open>a\<close>, the Add entry of \<open>b\<close> and a Ready entry, in this order, with nothing
  pushed yet, and the flush pushes exactly these three as the first chunk.
\<close>

theorem constructor_enqueues_in_order:
  assumes "clk 0 \<le> clk 1" and "clk 1 \<le> clk 2"
    and "clk 2 - clk 0 < (case bt of None \<Rightarrow> 200 | Some t \<Rightarrow> if t = 0 then 200 else t)"
  shows "buffer (new_SendListReadable clk \<lparr>bufferTime = bt, addAtStart = Some [a, b]\<rparr>) =
           [add_entry a, add_entry b, ready_entry] \<and>
         chunks (new_SendListReadable clk \<lparr>bufferTime = bt, addAtStart = Some [a, b]\<rparr>) = [] \<and>
         chunks (processBuffer_flush
             (new_SendListReadable clk \<lparr>bufferTime = bt, addAtStart = Some [a, b]\<rparr>)) =
           [[add_entry a, add_entry b, ready_entry]]"
proof -
  define w where "w = (case bt of None \<Rightarrow> 200 | Some t \<Rightarrow> if t = 0 then (200::int) else t)"
  define st0 where "st0 = \<lparr>buffer = [], lastError = JUndefined, wait = w, timerId = False,
      lastArgs = False, lastCallTime = None, lastInvokeTime = 0, chunks = [],
      ended = False, destroyed = False, errored = False, timeouts = 0, clock = clk,
      ticks = 0\<rparr>"
  define st1 where "st1 = st0\<lparr>buffer := [add_entry a], ticks := 1, lastArgs := True,
      lastCallTime := Some (clk 0), lastInvokeTime := clk 0, timerId := True, timeouts := 1\<rparr>"
  define st2 where "st2 = st1\<lparr>buffer := [add_entry a, add_entry b], ticks := 2,
      lastCallTime := Some (clk 1)\<rparr>"
  define st3 where "st3 = st2\<lparr>buffer := [add_entry a, add_entry b, ready_entry], ticks := 3,
      lastCallTime := Some (clk 2)\<rparr>"
  have c: "clk (Suc 0) - clk 0 < w" "0 \<le> clk (Suc 0) - clk 0"
    "clk 2 - clk (Suc 0) < w" "0 \<le> clk 2 - clk (Suc 0)" "clk 2 - clk 0 < w"
    using assms by (simp_all add: w_def)
  have n: "new_SendListReadable clk \<lparr>bufferTime = bt, addAtStart = Some [a, b]\<rparr> =
      ready (add b (add a st0))"
    by (simp add: new_SendListReadable_def st0_def w_def)
  have 1: "add a st0 = st1"
    unfolding add_def u_push_def Let_def processBuffer_def now_def prod.case leadingEdge_def
      setTimeout_def clearTimeout_def
      shouldInvoke_def st0_def st1_def
    by (simp add: hard_limit_def)
  have 2: "add b st1 = st2"
    unfolding add_def u_push_def Let_def processBuffer_def now_def prod.case leadingEdge_def
      setTimeout_def clearTimeout_def
      shouldInvoke_def st0_def st1_def st2_def
    using c by (simp add: hard_limit_def)
  have 3: "ready st2 = st3"
    unfolding ready_def u_push_def Let_def processBuffer_def now_def prod.case leadingEdge_def
      setTimeout_def clearTimeout_def
      shouldInvoke_def st0_def st1_def st2_def st3_def
    using c by (simp add: hard_limit_def numeral_2_eq_2)
  have f: "chunks (processBuffer_flush st3) = [[add_entry a, add_entry b, ready_entry]]"
    unfolding processBuffer_flush_def now_def Let_def prod.case trailingEdge_def invokeFunc_def
      processBuffer_func_def st0_def st1_def st2_def st3_def
    by (simp add: chunks_Readable_push)
  have "buffer st3 = [add_entry a, add_entry b, ready_entry]" "chunks st3 = []"
    by (simp_all add: st3_def st2_def st1_def st0_def)
  with f show ?thesis by (simp add: n 1 2 3)
qed

theorem constructor_enqueues_in_order_witness:
  "steady_clock 0 \<le> steady_clock 1 \<and> steady_clock 1 \<le> steady_clock 2 \<and>
   steady_clock 2 - steady_clock 0 < 200 \<and>
   buffer (new_SendListReadable steady_clock \<lparr>bufferTime = None, addAtStart = Some [rec_1, rec_2]\<rparr>) =
     [add_entry rec_1, add_entry rec_2, ready_entry] \<and>
   chunks (processBuffer_flush
      (new_SendListReadable steady_clock \<lparr>bufferTime = None, addAtStart = Some [rec_1, rec_2]\<rparr>)) =
     [[add_entry rec_1, add_entry rec_2, ready_entry]]"
proof -
  have c: "steady_clock 0 \<le> steady_clock 1" "steady_clock 1 \<le> steady_clock 2"
    "steady_clock 2 - steady_clock 0 < (case None of None \<Rightarrow> 200 | Some t \<Rightarrow> if t = 0 then 200 else t)"
    by (simp_all add: steady_clock_def)
  from constructor_enqueues_in_order [OF c, of rec_1 rec_2] c
  show ?thesis by simp
qed

text \<open>
  Claim C9 as stated fails when the clock advances by the buffer time while the
  constructor runs: with a buffer time of 1 ms and a clock that advances 1 ms per reading,
  the second \<open>add\<close> already flushes, so the first chunk holds the two Add entries only
  and the Ready entry comes in a second chunk.
\<close>

theorem constructor_order_counterexample:
  "chunks (new_SendListReadable ticking_clock \<lparr>bufferTime = Some 1, addAtStart = Some [rec_1, rec_2]\<rparr>) =
     [[add_entry rec_1, add_entry rec_2], [ready_entry]] \<and>
   buffer (new_SendListReadable ticking_clock \<lparr>bufferTime = Some 1, addAtStart = Some [rec_1, rec_2]\<rparr>) = []"
  by (simp add: run_defs Let_def)

section \<open>Claims about the middleware\<close>

lemmas request_defs = apiMiddleware_def try_block_def call_handler_def fixed_params_def
  fix_entry_def request_def sample_apis_def ok_handler_def forbidden_handler_def
  broken_handler_def strip_prefix_def type_error_def error_toString_def get_prop_def
  opt_index_def HTTP_BAD_REQUEST_def HTTP_NOT_FOUND_def HTTP_UNAUTHORIZED_def

text \<open>
  Claim C7, as amended. Take a request whose path has a registered handler, whose
  parameters are a plain object, and whose parameter rewriting behind a reverse proxy
  threw nothing. With no \<open>csrf\<close> cookie, or an empty one, the handler is called. With a
  non-empty \<open>csrf\<close> cookie the handler is called when the parameter \<open>csrf\<close> is that very
  string; otherwise the response has status 401 and body \<open>csrf\<close>, and the handler is not
  called.
\<close>

theorem csrf_mismatch_is_unauthorized:
  assumes "apis (ctx_path ctx) = Some h"
    and "ctx_params ctx = JObj fs0"
    and "fixed_params rm ctx = Inr p"
  shows "(case cookie_csrf ctx of
            None \<Rightarrow> handler_called (apiMiddleware lg rm apis ctx) = Some p
          | Some c \<Rightarrow>
              if c = [] \<or> get_prop fs0 ''csrf'' = JStr c
              then handler_called (apiMiddleware lg rm apis ctx) = Some p
              else status (apiMiddleware lg rm apis ctx) = Some 401 \<and>
                   body (apiMiddleware lg rm apis ctx) = Some (JStr ''csrf'') \<and>
                   handler_called (apiMiddleware lg rm apis ctx) = None)"
proof -
  from fixed_params_csrf [OF assms(2,3)] obtain fs where
    p: "p = JObj fs" and c: "get_prop fs ''csrf'' = get_prop fs0 ''csrf''" by blast
  have called: "\<exists>r. call_handler h p ctx = (r, Some p)"
    by (simp add: call_handler_def p Let_def)
  show ?thesis
  proof (cases "cookie_csrf ctx")
    case None
    then show ?thesis
      using assms(1,3) called
      by (auto simp: apiMiddleware_def try_block_def handler_called_respond)
  next
    case (Some c0)
    show ?thesis
    proof (cases "c0 = [] \<or> get_prop fs0 ''csrf'' = JStr c0")
      case True
      then show ?thesis
        using assms(1,3) called Some p c
        by (auto simp: apiMiddleware_def try_block_def handler_called_respond)
    next
      case False
      then show ?thesis
        using assms(1,3) Some p c
        by (simp add: apiMiddleware_def try_block_def HTTP_UNAUTHORIZED_def)
    qed
  qed
qed

theorem csrf_mismatch_is_unauthorized_witness:
  "sample_apis (ctx_path (request ''/api/ok'' (JObj [(''csrf'', JStr ''xyz'')]) (Some ''abc'') JUndefined)) =
     Some ok_handler \<and>
   fixed_params strip_prefix (request ''/api/ok'' (JObj [(''csrf'', JStr ''xyz'')]) (Some ''abc'') JUndefined) =
     Inr (JObj [(''csrf'', JStr ''xyz'')]) \<and>
   status (apiMiddleware True strip_prefix sample_apis
     (request ''/api/ok'' (JObj [(''csrf'', JStr ''xyz'')]) (Some ''abc'') JUndefined)) = Some 401 \<and>
   handler_called (apiMiddleware True strip_prefix sample_apis
     (request ''/api/ok'' (JObj [(''csrf'', JStr ''xyz'')]) (Some ''abc'') JUndefined)) = None \<and>
   handler_called (apiMiddleware True strip_prefix sample_apis
     (request ''/api/ok'' (JObj [(''csrf'', JStr ''abc'')]) (Some ''abc'') JUndefined)) =
     Some (JObj [(''csrf'', JStr ''abc'')]) \<and>
   handler_called (apiMiddleware True strip_prefix sample_apis
     (request ''/api/ok'' (JObj [(''csrf'', JStr ''abc'')]) None JUndefined)) =
     Some (JObj [(''csrf'', JStr ''abc'')])"
proof -
  let ?bad = "request ''/api/ok'' (JObj [(''csrf'', JStr ''xyz'')]) (Some ''abc'') JUndefined"
  let ?good = "request ''/api/ok'' (JObj [(''csrf'', JStr ''abc'')]) (Some ''abc'') JUndefined"
  let ?none = "request ''/api/ok'' (JObj [(''csrf'', JStr ''abc'')]) None JUndefined"
  have a: "sample_apis (ctx_path ?bad) = Some ok_handler"
    "sample_apis (ctx_path ?good) = Some ok_handler"
    "sample_apis (ctx_path ?none) = Some ok_handler"
    by (simp_all add: sample_apis_def request_def)
  have q: "ctx_params ?bad = JObj [(''csrf'', JStr ''xyz'')]"
    "ctx_params ?good = JObj [(''csrf'', JStr ''abc'')]"
    "ctx_params ?none = JObj [(''csrf'', JStr ''abc'')]"
    by (simp_all add: request_def)
  have f: "fixed_params strip_prefix ?bad = Inr (JObj [(''csrf'', JStr ''xyz'')])"
    "fixed_params strip_prefix ?good = Inr (JObj [(''csrf'', JStr ''abc'')])"
    "fixed_params strip_prefix ?none = Inr (JObj [(''csrf'', JStr ''abc'')])"
    by (simp_all add: fixed_params_def request_def)
  have k: "cookie_csrf ?bad = Some ''abc''" "cookie_csrf ?good = Some ''abc''"
    "cookie_csrf ?none = None"
    by (simp_all add: request_def)
  from csrf_mismatch_is_unauthorized [of sample_apis ?bad ok_handler
      "[(''csrf'', JStr ''xyz'')]" strip_prefix "JObj [(''csrf'', JStr ''xyz'')]" True]
    a(1) q(1) f(1) k(1)
  have 1: "status (apiMiddleware True strip_prefix sample_apis ?bad) = Some 401"
    "handler_called (apiMiddleware True strip_prefix sample_apis ?bad) = None"
    by (simp_all add: get_prop_def)
  from csrf_mismatch_is_unauthorized [of sample_apis ?good ok_handler
      "[(''csrf'', JStr ''abc'')]" strip_prefix "JObj [(''csrf'', JStr ''abc'')]" True]
    a(2) q(2) f(2) k(2)
  have 2: "handler_called (apiMiddleware True strip_prefix sample_apis ?good) =
      Some (JObj [(''csrf'', JStr ''abc'')])"
    by (simp add: get_prop_def)
  from csrf_mismatch_is_unauthorized [of sample_apis ?none ok_handler
      "[(''csrf'', JStr ''abc'')]" strip_prefix "JObj [(''csrf'', JStr ''abc'')]" True]
    a(3) q(3) f(3) k(3)
  have 3: "handler_called (apiMiddleware True strip_prefix sample_apis ?none) =
      Some (JObj [(''csrf'', JStr ''abc'')])"
    by simp
  from a(1) f(1) 1 2 3 show ?thesis by simp
qed

text \<open>
  Claim C7 as stated fails on two requests with a cookie \<open>csrf\<close> and a different
  parameter \<open>csrf\<close>. With an empty cookie value the test \<^verbatim>\<open>csrf && ...\<close> is false: the
  handler is called and no status is set. Behind a reverse proxy, with a parameter \<open>uri\<close>
  that is an object holding a string under \<^verbatim>\<open>0\<close>, the rewriting throws before the
  comparison: the status is 400.
\<close>

theorem csrf_mismatch_counterexample:
  "handler_called (apiMiddleware True strip_prefix sample_apis
     (request ''/api/ok'' (JObj [(''csrf'', JStr ''xyz'')]) (Some []) JUndefined)) =
     Some (JObj [(''csrf'', JStr ''xyz'')]) \<and>
   status (apiMiddleware True strip_prefix sample_apis
     (request ''/api/ok'' (JObj [(''csrf'', JStr ''xyz'')]) (Some []) JUndefined)) = None \<and>
   status (apiMiddleware True strip_prefix sample_apis
     (request ''/api/ok''
        (JObj [(''csrf'', JStr ''xyz''), (''uri'', JObj [(''0'', JStr ''a'')])])
        (Some ''abc'') (JStr ''/proxy''))) = Some 400 \<and>
   handler_called (apiMiddleware True strip_prefix sample_apis
     (request ''/api/ok''
        (JObj [(''csrf'', JStr ''xyz''), (''uri'', JObj [(''0'', JStr ''a'')])])
        (Some ''abc'') (JStr ''/proxy''))) = None"
  by (simp add: request_defs Let_def dec.simps digit_def)

text \<open>
  Claim C8, as amended. Whenever the handler was called and threw (or its promise
  rejected with) a value, the \<^verbatim>\<open>catch\<close> makes that value the result, and the response is
  the one for a handler that returned it. For an \<^verbatim>\<open>ApiError\<close> the status is its status and
  the body its message; for any other \<^verbatim>\<open>Error\<close> the status is 400 and the body is its
  message, or its string form when the message is empty; a thrown value that is neither
  an \<^verbatim>\<open>Error\<close> nor a stream becomes the body, and no status is set. None of the three
  starts a stream.
\<close>

theorem thrown_values_become_results:
  assumes "apis (ctx_path ctx) = Some h"
    and "fixed_params rm ctx = Inr p"
    and "handler_called (apiMiddleware lg rm apis ctx) = Some a"
    and "h a (ctx\<lparr>ctx_params := p\<rparr>) = Throws e"
  shows "fst (try_block rm h ctx) = e \<and>
         (\<forall>st msg. e = ApiError st msg \<longrightarrow>
            status (apiMiddleware lg rm apis ctx) = Some st \<and>
            body (apiMiddleware lg rm apis ctx) = Some (JStr msg) \<and>
            sse (apiMiddleware lg rm apis ctx) = None) \<and>
         (\<forall>name msg. e = GenericError name msg \<longrightarrow>
            status (apiMiddleware lg rm apis ctx) = Some 400 \<and>
            body (apiMiddleware lg rm apis ctx) =
              Some (JStr (if msg \<noteq> [] then msg else error_toString name msg)) \<and>
            sse (apiMiddleware lg rm apis ctx) = None) \<and>
         (\<forall>v. e = Plain v \<longrightarrow>
            status (apiMiddleware lg rm apis ctx) = None \<and>
            body (apiMiddleware lg rm apis ctx) = Some v \<and>
            sse (apiMiddleware lg rm apis ctx) = None) \<and>
         (\<forall>h'. h' a (ctx\<lparr>ctx_params := p\<rparr>) = Returns e \<longrightarrow>
            apiMiddleware lg rm (apis(ctx_path ctx \<mapsto> h')) ctx = apiMiddleware lg rm apis ctx)"
proof -
  obtain res cl where t: "try_block rm h ctx = (res, cl)" by (cases "try_block rm h ctx")
  have m: "apiMiddleware lg rm apis ctx = respond (\<not> lg) cl (to_readable res)"
    using assms(1) t by (simp add: apiMiddleware_def)
  with assms(3) have cl: "cl = Some a" by (simp add: handler_called_respond)
  have c: "try_block rm h ctx = call_handler h p ctx"
    using t cl assms(2)
    by (auto simp: try_block_def split: option.splits if_splits sum.splits)
  have d: "try_block rm h' ctx = call_handler h' p ctx" for h'
    using c t cl assms(2)
    by (auto simp: try_block_def split: option.splits if_splits sum.splits)
  have a: "a = (if truthy p then p else JObj [])"
    using c t cl by (auto simp: call_handler_def Let_def)
  have r: "res = e"
    using c t assms(4) a by (simp add: call_handler_def Let_def)
  have "apiMiddleware lg rm (apis(ctx_path ctx \<mapsto> h')) ctx = apiMiddleware lg rm apis ctx"
    if "h' a (ctx\<lparr>ctx_params := p\<rparr>) = Returns e" for h'
  proof -
    have "try_block rm h' ctx = (e, Some a)"
      using that a by (simp add: d call_handler_def Let_def)
    then show ?thesis
      using m r cl by (simp add: apiMiddleware_def)
  qed
  then show ?thesis
    using m r t by (auto simp: HTTP_BAD_REQUEST_def)
qed

theorem thrown_values_become_results_witness:
  "sample_apis (ctx_path (request ''/api/forbidden'' (JObj []) None JUndefined)) = Some forbidden_handler \<and>
   fixed_params strip_prefix (request ''/api/forbidden'' (JObj []) None JUndefined) = Inr (JObj []) \<and>
   handler_called (apiMiddleware True strip_prefix sample_apis
     (request ''/api/forbidden'' (JObj []) None JUndefined)) = Some (JObj []) \<and>
   status (apiMiddleware True strip_prefix sample_apis
     (request ''/api/forbidden'' (JObj []) None JUndefined)) = Some 403 \<and>
   body (apiMiddleware True strip_prefix sample_apis
     (request ''/api/forbidden'' (JObj []) None JUndefined)) = Some (JStr ''forbidden'') \<and>
   apiMiddleware True strip_prefix
     (sample_apis(ctx_path (request ''/api/forbidden'' (JObj []) None JUndefined) \<mapsto>
        forbidden_result_handler))
     (request ''/api/forbidden'' (JObj []) None JUndefined) =
   apiMiddleware True strip_prefix sample_apis
     (request ''/api/forbidden'' (JObj []) None JUndefined) \<and>
   status (apiMiddleware True strip_prefix sample_apis
     (request ''/api/broken'' (JObj []) None JUndefined)) = Some 400 \<and>
   body (apiMiddleware True strip_prefix sample_apis
     (request ''/api/broken'' (JObj []) None JUndefined)) = Some (JStr ''boom'') \<and>
   status (apiMiddleware True strip_prefix oops_apis
     (request ''/api/oops'' (JObj []) None JUndefined)) = None \<and>
   body (apiMiddleware True strip_prefix oops_apis
     (request ''/api/oops'' (JObj []) None JUndefined)) = Some (JStr ''oops'')"
proof -
  let ?f = "request ''/api/forbidden'' (JObj []) None JUndefined"
  let ?b = "request ''/api/broken'' (JObj []) None JUndefined"
  let ?o = "request ''/api/oops'' (JObj []) None JUndefined"
  have a: "sample_apis (ctx_path ?f) = Some forbidden_handler"
    "sample_apis (ctx_path ?b) = Some broken_handler"
    "oops_apis (ctx_path ?o) = Some oops_handler"
    by (simp_all add: sample_apis_def oops_apis_def request_def)
  have p: "fixed_params strip_prefix ?f = Inr (JObj [])"
    "fixed_params strip_prefix ?b = Inr (JObj [])"
    "fixed_params strip_prefix ?o = Inr (JObj [])"
    by (simp_all add: fixed_params_def request_def)
  have c: "handler_called (apiMiddleware True strip_prefix sample_apis ?f) = Some (JObj [])"
    "handler_called (apiMiddleware True strip_prefix sample_apis ?b) = Some (JObj [])"
    "handler_called (apiMiddleware True strip_prefix oops_apis ?o) = Some (JObj [])"
    by (simp_all add: request_defs oops_apis_def oops_handler_def Let_def)
  have t: "forbidden_handler (JObj []) (?f\<lparr>ctx_params := JObj []\<rparr>) = Throws (ApiError 403 ''forbidden'')"
    "broken_handler (JObj []) (?b\<lparr>ctx_params := JObj []\<rparr>) = Throws (GenericError ''Error'' ''boom'')"
    "oops_handler (JObj []) (?o\<lparr>ctx_params := JObj []\<rparr>) = Throws (Plain (JStr ''oops''))"
    by (simp_all add: forbidden_handler_def broken_handler_def oops_handler_def)
  have s: "forbidden_result_handler (JObj []) (?f\<lparr>ctx_params := JObj []\<rparr>) =
      Returns (ApiError 403 ''forbidden'')"
    by (simp add: forbidden_result_handler_def)
  from thrown_values_become_results [OF a(1) p(1) c(1) t(1)] s
  have 1: "status (apiMiddleware True strip_prefix sample_apis ?f) = Some 403"
    "body (apiMiddleware True strip_prefix sample_apis ?f) = Some (JStr ''forbidden'')"
    "apiMiddleware True strip_prefix (sample_apis(ctx_path ?f \<mapsto> forbidden_result_handler)) ?f =
     apiMiddleware True strip_prefix sample_apis ?f"
    by simp_all
  from thrown_values_become_results [OF a(2) p(2) c(2) t(2)]
  have 2: "status (apiMiddleware True strip_prefix sample_apis ?b) = Some 400"
    "body (apiMiddleware True strip_prefix sample_apis ?b) = Some (JStr ''boom'')"
    by simp_all
  from thrown_values_become_results [OF a(3) p(3) c(3) t(3)]
  have 3: "status (apiMiddleware True strip_prefix oops_apis ?o) = None"
    "body (apiMiddleware True strip_prefix oops_apis ?o) = Some (JStr ''oops'')"
    by simp_all
  from a(1) p(1) c(1) 1 2 3 show ?thesis by simp
qed

text \<open>
  Claim C8 as stated fails for a thrown value that is not an \<^verbatim>\<open>Error\<close>: when the handler
  throws the string \<open>oops\<close>, the handler having been called, the string is the body and
  no status is set, where the claim has 400.
\<close>

theorem thrown_string_counterexample:
  "oops_apis (ctx_path (request ''/api/oops'' (JObj []) None JUndefined)) = Some oops_handler \<and>
   oops_handler (JObj []) (request ''/api/oops'' (JObj []) None JUndefined) =
     Throws (Plain (JStr ''oops'')) \<and>
   handler_called (apiMiddleware True strip_prefix oops_apis
     (request ''/api/oops'' (JObj []) None JUndefined)) = Some (JObj []) \<and>
   status (apiMiddleware True strip_prefix oops_apis
     (request ''/api/oops'' (JObj []) None JUndefined)) = None \<and>
   body (apiMiddleware True strip_prefix oops_apis
     (request ''/api/oops'' (JObj []) None JUndefined)) = Some (JStr ''oops'')"
  by (simp add: request_defs oops_apis_def oops_handler_def Let_def)

end
